theory Spec2Isabelle
  imports Main "HOL-Library.Multiset" "HOL-Library.Sublist"
begin

section \<open>Data model of \<^verbatim>\<open>twisted/threads/_team.py\<close>\<close>

text \<open>
  A worker created by the factory is identified by a number: the factory hands out fresh
  workers, numbered in the order of their creation.  A task is a 0-argument callable; what
  the pool can observe of it is whether its call returns or raises.
\<close>

type_synonym worker = nat

datatype outcome = Returns | Raises nat

datatype task = Task (taskId: nat) (body: outcome)

datatype error = PoolShuttingDown

text \<open>
  The closures that \<^verbatim>\<open>Team\<close> hands to \<^verbatim>\<open>coordinator.do\<close>, one constructor per closure of the
  source, each with the variables it captures: \<^verbatim>\<open>createOneWorker\<close> (of \<^verbatim>\<open>grow\<close>, capturing
  \<^verbatim>\<open>n\<close>), \<^verbatim>\<open>lambda: self._quitIdlers(n)\<close> (of \<^verbatim>\<open>shrink\<close>) and the bound method
  \<^verbatim>\<open>self._quitIdlers\<close> (of \<^verbatim>\<open>quit\<close>, \<^verbatim>\<open>n = None\<close>), \<^verbatim>\<open>lambda: self._coordinateThisTask(task)\<close>
  (of \<^verbatim>\<open>do\<close>), and \<^verbatim>\<open>idleAndPending\<close> (of \<^verbatim>\<open>doWork\<close>, capturing \<^verbatim>\<open>worker\<close>).  The only closure
  handed to a pool worker is \<^verbatim>\<open>doWork\<close>, capturing \<^verbatim>\<open>task\<close>.
\<close>

datatype citem =
    CreateOneWorker int
  | QuitIdlers "int option"
  | CoordinateThisTask task
  | IdleAndPending worker

datatype witem = DoWork task

text \<open>
  The two sources of nondeterminism outside the pool: whether the \<open>k\<close>-th call of
  \<^verbatim>\<open>createWorker\<close> yields a worker or \<^verbatim>\<open>None\<close>, and which element the \<open>k\<close>-th \<^verbatim>\<open>set.pop()\<close> takes.
\<close>

record env =
  admits :: "nat \<Rightarrow> bool"
  chooses :: "nat \<Rightarrow> nat"

text \<open>
  The fields of \<^verbatim>\<open>Team\<close> (\<^verbatim>\<open>_quit.isSet\<close>, \<^verbatim>\<open>_idle\<close>, \<^verbatim>\<open>_busyCount\<close>, \<^verbatim>\<open>_pending\<close>, \<^verbatim>\<open>_coordinatorQuit\<close>,
  \<^verbatim>\<open>_toShrink\<close>), followed by the state of the collaborators: the items the coordinator and
  the workers have accepted and not yet run, and a trace of the calls made on the factory,
  on \<^verbatim>\<open>set.pop\<close>, on \<^verbatim>\<open>worker.quit\<close>, on \<^verbatim>\<open>coordinator.quit\<close>, on the tasks and on
  \<^verbatim>\<open>logException\<close>.  The set \<^verbatim>\<open>_idle\<close> is a list kept free of duplicates; \<^verbatim>\<open>workerQ\<close> lists the
  items of all workers in the order of submission, each with the worker it was given to.
  Three traces keep the order of events: \<^verbatim>\<open>backlogged\<close> the tasks given to
  \<^verbatim>\<open>_pending.append\<close>, \<^verbatim>\<open>dispatched\<close> the tasks given to \<^verbatim>\<open>worker.do\<close> with their worker, and
  \<^verbatim>\<open>executed\<close> the tasks called, with the worker that called them.
\<close>

record pool =
  quitIsSet :: bool
  idle :: "worker list"
  busyCount :: int
  pending :: "task list"
  coordinatorQuit :: bool
  toShrink :: int
  coordQ :: "citem list"
  workerQ :: "(worker \<times> witem) list"
  created :: nat
  factoryCalls :: nat
  popCalls :: nat
  retired :: "worker list"
  coordQuits :: nat
  executed :: "(worker \<times> task) list"
  logged :: "nat list"
  backlogged :: "task list"
  dispatched :: "(worker \<times> task) list"

definition Team_init :: pool where
  "Team_init = \<lparr> quitIsSet = False, idle = [], busyCount = 0, pending = [],
     coordinatorQuit = False, toShrink = 0, coordQ = [], workerQ = [], created = 0,
     factoryCalls = 0, popCalls = 0, retired = [], coordQuits = 0, executed = [],
     logged = [], backlogged = [], dispatched = [] \<rparr>"

section \<open>Collaborators\<close>

text \<open>
  The coordinator, the pool workers, the factory and \<^verbatim>\<open>logException\<close> are given to \<^verbatim>\<open>Team\<close>
  from outside.  \<^verbatim>\<open>coordinator.do\<close> and \<^verbatim>\<open>worker.do\<close> accept an item and return; the item runs
  later, in the order of submission.  \<^verbatim>\<open>coordinator.quit()\<close>, \<^verbatim>\<open>worker.quit()\<close> and
  \<^verbatim>\<open>logException()\<close> return normally and are recorded in the trace.  The flag \<^verbatim>\<open>self._quit\<close> is
  an object of the class \<^verbatim>\<open>Quit\<close>, whose file is not among the sources: \<^verbatim>\<open>check\<close> raises when
  the flag is set, and \<^verbatim>\<open>set\<close> checks before it sets, so that the flag is set once.
\<close>

definition Quit_check :: "pool \<Rightarrow> error + unit" where
  \<comment> \<open>Modelled from the spec: \<^verbatim>\<open>Quit.check\<close> of \<^verbatim>\<open>_convenience.py\<close> is missing; a public
      operation "fails with PoolShuttingDown if quitRequested".\<close>
  "Quit_check p = (if quitIsSet p then Inl PoolShuttingDown else Inr ())"

definition Quit_set :: "pool \<Rightarrow> error + pool" where
  \<comment> \<open>Modelled from the spec: \<^verbatim>\<open>Quit.set\<close> of \<^verbatim>\<open>_convenience.py\<close> is missing; quitRequested
      is a "one-shot flag set by quit", and a "public operation invoked after quit" "fails
      the operation synchronously; state unchanged".\<close>
  "Quit_set p =
     (case Quit_check p of
        Inl err \<Rightarrow> Inl err
      | Inr u \<Rightarrow> Inr (p\<lparr>quitIsSet := True\<rparr>))"

definition coordinator_do :: "citem \<Rightarrow> pool \<Rightarrow> pool" where
  "coordinator_do it p = p\<lparr>coordQ := coordQ p @ [it]\<rparr>"

definition coordinator_quit :: "pool \<Rightarrow> pool" where
  "coordinator_quit p = p\<lparr>coordQuits := coordQuits p + 1\<rparr>"

fun itemTask :: "witem \<Rightarrow> task" where
  "itemTask (DoWork t) = t"

definition worker_do :: "worker \<Rightarrow> witem \<Rightarrow> pool \<Rightarrow> pool" where
  "worker_do w it p =
     p\<lparr>workerQ := workerQ p @ [(w, it)], dispatched := dispatched p @ [(w, itemTask it)]\<rparr>"

definition worker_quit :: "worker \<Rightarrow> pool \<Rightarrow> pool" where
  "worker_quit w p = p\<lparr>retired := retired p @ [w]\<rparr>"

definition logException :: "nat \<Rightarrow> pool \<Rightarrow> pool" where
  "logException x p = p\<lparr>logged := logged p @ [x]\<rparr>"

definition createWorker :: "env \<Rightarrow> pool \<Rightarrow> worker option \<times> pool" where
  "createWorker e p =
     (if admits e (factoryCalls p)
      then (Some (created p),
            p\<lparr>created := created p + 1, factoryCalls := factoryCalls p + 1\<rparr>)
      else (None, p\<lparr>factoryCalls := factoryCalls p + 1\<rparr>))"

text \<open>
  \<^verbatim>\<open>self._idle.add(worker)\<close>, \<^verbatim>\<open>self._idle.pop()\<close> and \<^verbatim>\<open>self._idle.remove(worker)\<close>.  The
  source calls \<^verbatim>\<open>pop\<close> only under \<^verbatim>\<open>if self._idle\<close> and \<^verbatim>\<open>remove\<close> only on the worker it has
  just added, so neither can raise \<^verbatim>\<open>KeyError\<close>.
\<close>

definition idle_add :: "worker \<Rightarrow> worker list \<Rightarrow> worker list" where
  "idle_add w ws = (if w \<in> set ws then ws else ws @ [w])"

definition idle_pop :: "env \<Rightarrow> pool \<Rightarrow> worker \<times> pool" where
  "idle_pop e p =
     (let w = idle p ! (chooses e (popCalls p) mod length (idle p))
      in (w, p\<lparr>idle := remove1 w (idle p), popCalls := popCalls p + 1\<rparr>))"

section \<open>The coordinator's side of \<^verbatim>\<open>Team\<close>\<close>

definition coordinateThisTask :: "env \<Rightarrow> task \<Rightarrow> pool \<Rightarrow> pool" where
  "coordinateThisTask e t p =
     (case (if idle p \<noteq> [] then (let (w, p') = idle_pop e p in (Some w, p'))
            else createWorker e p) of
        (None, p1) \<Rightarrow> p1\<lparr>pending := pending p1 @ [t], backlogged := backlogged p1 @ [t]\<rparr>
      | (Some w, p1) \<Rightarrow> worker_do w (DoWork t) (p1\<lparr>busyCount := busyCount p1 + 1\<rparr>))"

text \<open>The loop \<^verbatim>\<open>for x in range(n)\<close> of \<^verbatim>\<open>_quitIdlers\<close>.\<close>

fun quitLoop :: "env \<Rightarrow> nat \<Rightarrow> pool \<Rightarrow> pool" where
  "quitLoop e 0 p = p"
| "quitLoop e (Suc k) p =
     quitLoop e k
       (if idle p \<noteq> [] then (let (w, p') = idle_pop e p in worker_quit w p')
        else p\<lparr>toShrink := toShrink p + 1\<rparr>)"

definition quitIdlers :: "env \<Rightarrow> int option \<Rightarrow> pool \<Rightarrow> pool" where
  "quitIdlers e n p =
     (let m = (case n of None \<Rightarrow> int (length (idle p)) + busyCount p | Some k \<Rightarrow> k);
          p1 = quitLoop e (nat m) p
      in if \<not> coordinatorQuit p1 \<and> busyCount p1 = 0 \<and> length (pending p1) = 0
            \<and> quitIsSet p1
         then coordinator_quit (p1\<lparr>coordinatorQuit := True\<rparr>)
         else p1)"

definition recycleWorker :: "env \<Rightarrow> worker \<Rightarrow> pool \<Rightarrow> pool" where
  "recycleWorker e w p =
     (let p1 = p\<lparr>idle := idle_add w (idle p)\<rparr>
      in if pending p1 \<noteq> []
         then coordinateThisTask e (hd (pending p1)) (p1\<lparr>pending := tl (pending p1)\<rparr>)
         else if quitIsSet p1 then quitIdlers e None p1
         else if toShrink p1 > 0
         then worker_quit w
                (p1\<lparr>toShrink := toShrink p1 - 1, idle := remove1 w (idle p1)\<rparr>)
         else p1)"

definition idleAndPending :: "env \<Rightarrow> worker \<Rightarrow> pool \<Rightarrow> pool" where
  "idleAndPending e w p = recycleWorker e w (p\<lparr>busyCount := busyCount p - 1\<rparr>)"

text \<open>The closure of \<^verbatim>\<open>grow\<close>: \<^verbatim>\<open>for x in range(n)\<close>, left at the first \<^verbatim>\<open>None\<close>.\<close>

fun createOneWorker :: "env \<Rightarrow> nat \<Rightarrow> pool \<Rightarrow> pool" where
  "createOneWorker e 0 p = p"
| "createOneWorker e (Suc k) p =
     (case createWorker e p of
        (None, p1) \<Rightarrow> p1
      | (Some w, p1) \<Rightarrow> createOneWorker e k (recycleWorker e w p1))"

section \<open>The worker's side\<close>

text \<open>
  \<^verbatim>\<open>doWork\<close> runs on the worker: it calls the task, calls \<^verbatim>\<open>logException\<close> under the bare
  \<^verbatim>\<open>except:\<close>, and then hands \<^verbatim>\<open>idleAndPending\<close> to the coordinator.  The first component of
  the result is the exception that leaves \<^verbatim>\<open>doWork\<close>, if any.
\<close>

definition doWork :: "task \<Rightarrow> worker \<Rightarrow> pool \<Rightarrow> nat option \<times> pool" where
  "doWork t w p =
     (let p1 = p\<lparr>executed := executed p @ [(w, t)]\<rparr>;
          p2 = (case body t of Raises x \<Rightarrow> logException x p1 | Returns \<Rightarrow> p1)
      in (None, coordinator_do (IdleAndPending w) p2))"

section \<open>The public operations\<close>

definition grow :: "int \<Rightarrow> pool \<Rightarrow> (error + unit) \<times> pool" where
  "grow n p =
     (case Quit_check p of
        Inl err \<Rightarrow> (Inl err, p)
      | Inr u \<Rightarrow> (Inr (), coordinator_do (CreateOneWorker n) p))"

definition shrink :: "int option \<Rightarrow> pool \<Rightarrow> (error + unit) \<times> pool" where
  "shrink n p =
     (case Quit_check p of
        Inl err \<Rightarrow> (Inl err, p)
      | Inr u \<Rightarrow> (Inr (), coordinator_do (QuitIdlers n) p))"

definition team_do :: "task \<Rightarrow> pool \<Rightarrow> (error + unit) \<times> pool" where
  "team_do t p =
     (case Quit_check p of
        Inl err \<Rightarrow> (Inl err, p)
      | Inr u \<Rightarrow> (Inr (), coordinator_do (CoordinateThisTask t) p))"

definition quit :: "pool \<Rightarrow> (error + unit) \<times> pool" where
  "quit p =
     (case Quit_set p of
        Inl err \<Rightarrow> (Inl err, p)
      | Inr p1 \<Rightarrow> (Inr (), coordinator_do (QuitIdlers None) p1))"

section \<open>Runs\<close>

text \<open>
  The coordinator runs the items it has accepted one at a time, in the order of submission;
  a worker runs the first item submitted to it.  A run is a sequence of public calls, of
  coordinator items and of worker items, in any interleaving.
\<close>

fun run_item :: "env \<Rightarrow> citem \<Rightarrow> pool \<Rightarrow> pool" where
  "run_item e (CreateOneWorker n) p = createOneWorker e (nat n) p"
| "run_item e (QuitIdlers n) p = quitIdlers e n p"
| "run_item e (CoordinateThisTask t) p = coordinateThisTask e t p"
| "run_item e (IdleAndPending w) p = idleAndPending e w p"

definition coordinator_runs :: "env \<Rightarrow> pool \<Rightarrow> pool" where
  "coordinator_runs e p =
     (case coordQ p of [] \<Rightarrow> p | it # rest \<Rightarrow> run_item e it (p\<lparr>coordQ := rest\<rparr>))"

fun takeItem :: "worker \<Rightarrow> (worker \<times> witem) list \<Rightarrow> (witem \<times> (worker \<times> witem) list) option" where
  "takeItem w [] = None"
| "takeItem w ((v, it) # rest) =
     (if v = w then Some (it, rest)
      else (case takeItem w rest of
              None \<Rightarrow> None
            | Some (it', rest') \<Rightarrow> Some (it', (v, it) # rest')))"

definition worker_runs :: "worker \<Rightarrow> pool \<Rightarrow> pool" where
  "worker_runs w p =
     (case takeItem w (workerQ p) of
        None \<Rightarrow> p
      | Some (DoWork t, rest) \<Rightarrow> snd (doWork t w (p\<lparr>workerQ := rest\<rparr>)))"

datatype event =
    Do task
  | Grow int
  | Shrink "int option"
  | Quit
  | CoordinatorRuns
  | WorkerRuns worker

fun step :: "env \<Rightarrow> pool \<Rightarrow> event \<Rightarrow> pool" where
  "step e p (Do t) = snd (team_do t p)"
| "step e p (Grow n) = snd (grow n p)"
| "step e p (Shrink n) = snd (shrink n p)"
| "step e p Quit = snd (quit p)"
| "step e p CoordinatorRuns = coordinator_runs e p"
| "step e p (WorkerRuns w) = worker_runs w p"

definition run :: "env \<Rightarrow> event list \<Rightarrow> pool \<Rightarrow> pool" where
  "run e evs p = foldl (step e) p evs"

section \<open>Accounting for the workers\<close>

text \<open>
  A worker is busy from the moment \<^verbatim>\<open>doWork\<close> is handed to it until the coordinator runs its
  \<^verbatim>\<open>idleAndPending\<close>: it has an item in \<^verbatim>\<open>workerQ\<close>, or its \<^verbatim>\<open>idleAndPending\<close> waits in the
  coordinator's queue.
\<close>

fun returning :: "citem list \<Rightarrow> worker list" where
  "returning [] = []"
| "returning (IdleAndPending w # its) = w # returning its"
| "returning (it # its) = returning its"

definition busyWorkers :: "pool \<Rightarrow> worker list" where
  "busyWorkers p = map fst (workerQ p) @ returning (coordQ p)"

text \<open>
  The bookkeeping invariant.  \<open>hs\<close> are the workers in the hands of the coordinator item that
  is running (none between two items): every worker the factory has produced is, exactly
  once, in \<open>hs\<close>, busy, idle or retired; \<^verbatim>\<open>_busyCount\<close> counts the busy ones; and
  \<^verbatim>\<open>coordinator.quit()\<close> has been called once if \<^verbatim>\<open>_coordinatorQuit\<close> is set and never otherwise.
\<close>

definition books :: "worker list \<Rightarrow> pool \<Rightarrow> worker multiset" where
  "books hs p = mset hs + mset (busyWorkers p) + mset (idle p) + mset (retired p)"

definition accounted :: "worker list \<Rightarrow> pool \<Rightarrow> bool" where
  "accounted hs p \<longleftrightarrow>
     books hs p = mset [0..<created p]
     \<and> busyCount p = int (length (busyWorkers p))
     \<and> coordQuits p = (if coordinatorQuit p then 1 else 0)"

section \<open>The order of the backlog\<close>

text \<open>
  The tasks that have left the backlog: those that entered it and are no longer pending.
  The tasks handed to a worker, those it has called, and those it has still to call.
\<close>

definition drained :: "pool \<Rightarrow> task list" where
  "drained p = take (length (backlogged p) - length (pending p)) (backlogged p)"

definition handedTo :: "worker \<Rightarrow> pool \<Rightarrow> task list" where
  "handedTo w p = map snd (filter (\<lambda>x. fst x = w) (dispatched p))"

definition ranOn :: "worker \<Rightarrow> pool \<Rightarrow> task list" where
  "ranOn w p = map snd (filter (\<lambda>x. fst x = w) (executed p))"

definition queuedFor :: "worker \<Rightarrow> pool \<Rightarrow> task list" where
  "queuedFor w p = map (\<lambda>x. itemTask (snd x)) (filter (\<lambda>x. fst x = w) (workerQ p))"

text \<open>
  The two invariants of the order: what has left the backlog is the front of what entered
  it, and has been handed to workers in that order; what a worker was handed is what it has
  called followed by what it has still to call.
\<close>

definition fifo :: "pool \<Rightarrow> bool" where
  "fifo p \<longleftrightarrow>
     backlogged p = drained p @ pending p \<and> subseq (drained p) (map snd (dispatched p))"

definition served :: "worker \<Rightarrow> pool \<Rightarrow> bool" where
  "served w p \<longleftrightarrow> handedTo w p = ranOn w p @ queuedFor w p"

text \<open>The pool without the record of the tasks called and of the exceptions logged.\<close>

definition untraced :: "pool \<Rightarrow> pool" where
  "untraced p = p\<lparr>executed := [], logged := []\<rparr>"

section \<open>Scenarios\<close>

text \<open>A factory that never declines, and one that yields a single worker and then declines.\<close>

definition factory_always :: env where
  "factory_always = \<lparr> admits = (\<lambda>k. True), chooses = (\<lambda>k. 0) \<rparr>"

definition factory_once :: env where
  "factory_once = \<lparr> admits = (\<lambda>k. k = 0), chooses = (\<lambda>k. 0) \<rparr>"

text \<open>A factory that declines three times and yields a worker at each later call.\<close>

definition factory_after_three :: env where
  "factory_after_three = \<lparr> admits = (\<lambda>k. 3 \<le> k), chooses = (\<lambda>k. 0) \<rparr>"

text \<open>\<^verbatim>\<open>grow(1)\<close> run by the coordinator: one worker, idle.\<close>

definition one_idle :: "event list" where
  "one_idle = [Grow 1, CoordinatorRuns]"

text \<open>One task dispatched: one worker, busy.\<close>

definition one_busy :: "event list" where
  "one_busy = [Do (Task 1 Returns), CoordinatorRuns]"

text \<open>Three workers idle, \<^verbatim>\<open>shrink(1)\<close> accepted, then \<^verbatim>\<open>quit()\<close> before the coordinator runs it.\<close>

definition shrink_then_quit :: "event list" where
  "shrink_then_quit = [Grow 3, CoordinatorRuns, Shrink (Some 1), Quit]"

text \<open>
  One worker, busy with the first task; a second task in the backlog; \<^verbatim>\<open>shrink(1)\<close> run by the
  coordinator; the worker has finished the first task.
\<close>

definition backlog_and_debt :: "event list" where
  "backlog_and_debt =
     [Do (Task 1 Returns), CoordinatorRuns, Do (Task 2 Returns), CoordinatorRuns,
      Shrink (Some 1), CoordinatorRuns, WorkerRuns 0]"

text \<open>One worker, busy; \<^verbatim>\<open>shrink(1)\<close> run by the coordinator; nothing in the backlog.\<close>

definition debt_only :: "event list" where
  "debt_only = [Do (Task 1 Returns), CoordinatorRuns, Shrink (Some 1), CoordinatorRuns]"

text \<open>
  Three tasks submitted while the factory declines, then \<^verbatim>\<open>grow(1)\<close>: the new worker runs what
  it is given, returns to the coordinator, and is given the next.
\<close>

definition declined_then_admitted :: "event list" where
  "declined_then_admitted =
     [Do (Task 1 Returns), CoordinatorRuns, Do (Task 2 Returns), CoordinatorRuns,
      Do (Task 3 Returns), CoordinatorRuns,
      Grow 1, CoordinatorRuns, WorkerRuns 0,
      CoordinatorRuns, WorkerRuns 0,
      CoordinatorRuns, WorkerRuns 0]"

text \<open>
  Three tasks submitted while the factory declines, then \<^verbatim>\<open>grow(1)\<close> twice, each run by the
  coordinator before the next: two workers become available one at a time and are given the
  first and the second task.  The second worker then runs its task before the first.
\<close>

definition two_workers_race :: "event list" where
  "two_workers_race =
     [Do (Task 1 Returns), CoordinatorRuns, Do (Task 2 Returns), CoordinatorRuns,
      Do (Task 3 Returns), CoordinatorRuns,
      Grow 1, CoordinatorRuns, Grow 1, CoordinatorRuns,
      WorkerRuns 1, WorkerRuns 0]"

text \<open>A task that raises, dispatched to a new worker.\<close>

definition raising_dispatched :: "event list" where
  "raising_dispatched = [Do (Task 1 (Raises 7)), CoordinatorRuns]"

text \<open>The same, with \<^verbatim>\<open>shrink(1)\<close> run by the coordinator while the worker is busy.\<close>

definition raising_with_debt :: "event list" where
  "raising_with_debt =
     [Do (Task 1 (Raises 7)), CoordinatorRuns, Shrink (Some 1), CoordinatorRuns]"

text \<open>The worker runs the task that raises, and the coordinator runs what the worker hands back.\<close>

definition raising_returned :: "event list" where
  "raising_returned = [Do (Task 1 (Raises 7)), CoordinatorRuns, WorkerRuns 0, CoordinatorRuns]"

text \<open>One worker busy, \<^verbatim>\<open>quit()\<close> called and run by the coordinator.\<close>

definition quit_while_busy :: "event list" where
  "quit_while_busy = [Do (Task 1 Returns), CoordinatorRuns, Quit, CoordinatorRuns]"

section \<open>Lemmas\<close>

subsection \<open>The idle set and the dispatch\<close>

lemma idle_pop_simps:
  "fst (idle_pop e p) = idle p ! (chooses e (popCalls p) mod length (idle p))"
  "snd (idle_pop e p) = p\<lparr>idle := remove1 (fst (idle_pop e p)) (idle p), popCalls := popCalls p + 1\<rparr>"
  by (simp_all add: idle_pop_def Let_def)

lemma idle_pop_mem: "idle p \<noteq> [] \<Longrightarrow> fst (idle_pop e p) \<in> set (idle p)"
  by (simp add: idle_pop_def Let_def)

lemma idle_add_mem: "w \<in> set (idle_add w ws)"
  by (simp add: idle_add_def)

lemma remove1_idle_add: "distinct ws \<Longrightarrow> w \<notin> set (remove1 w (idle_add w ws))"
  by (simp add: idle_add_def)

lemma set_remove1_idle_add: "distinct ws \<Longrightarrow> set (remove1 w (idle_add w ws)) = set ws - {w}"
  by (auto simp: idle_add_def)

lemma coordinateThisTask_idle:
  assumes "idle p \<noteq> []"
  shows "\<exists>v \<in> set (idle p).
           coordinateThisTask e t p =
             p\<lparr>idle := remove1 v (idle p), popCalls := popCalls p + 1,
               busyCount := busyCount p + 1, workerQ := workerQ p @ [(v, DoWork t)],
               dispatched := dispatched p @ [(v, t)]\<rparr>"
  using assms idle_pop_mem [of p e]
  by (auto simp: coordinateThisTask_def worker_do_def idle_pop_def Let_def)

subsection \<open>The loop of \<^verbatim>\<open>_quitIdlers\<close>\<close>


lemma quitLoop_frame:
  "busyCount (quitLoop e k p) = busyCount p \<and> pending (quitLoop e k p) = pending p
   \<and> quitIsSet (quitLoop e k p) = quitIsSet p
   \<and> coordinatorQuit (quitLoop e k p) = coordinatorQuit p
   \<and> coordQuits (quitLoop e k p) = coordQuits p"
  by (induction k arbitrary: p) (simp_all add: idle_pop_def worker_quit_def Let_def)

lemma quitLoop_empties:
  "length (idle p) \<le> k \<Longrightarrow>
     idle (quitLoop e k p) = []
     \<and> toShrink (quitLoop e k p) = toShrink p + int (k - length (idle p))"
proof (induction k arbitrary: p)
  case 0
  then show ?case by simp
next
  case (Suc k)
  show ?case
  proof (cases "idle p = []")
    case True
    with Suc.IH [of "p\<lparr>toShrink := toShrink p + 1\<rparr>"] show ?thesis by simp
  next
    case False
    let ?v = "fst (idle_pop e p)"
    let ?q = "worker_quit ?v (snd (idle_pop e p))"
    have "?v \<in> set (idle p)" by (rule idle_pop_mem [OF False])
    then have len: "length (idle ?q) = length (idle p) - 1" and ts: "toShrink ?q = toShrink p"
      by (simp_all add: worker_quit_def idle_pop_simps length_remove1)
    have pos: "0 < length (idle p)" using False by simp
    have le: "length (idle ?q) \<le> k" using len Suc.prems by simp
    have d: "k - length (idle ?q) = Suc k - length (idle p)"
      unfolding len using False by (cases "idle p") simp_all
    have step: "quitLoop e (Suc k) p = quitLoop e k ?q"
      using False by (simp add: case_prod_beta)
    from Suc.IH [OF le] show ?thesis
      unfolding step d ts by simp
  qed
qed

lemma quitIdlers_via_loop:
  assumes "k = nat (case n of None \<Rightarrow> int (length (idle q)) + busyCount q | Some m \<Rightarrow> m)"
  shows "quitIdlers e n q =
           (if \<not> coordinatorQuit q \<and> busyCount q = 0 \<and> pending q = [] \<and> quitIsSet q
            then (quitLoop e k q)\<lparr>coordinatorQuit := True, coordQuits := coordQuits q + 1\<rparr>
            else quitLoop e k q)"
proof -
  have "quitIdlers e n q =
          (if \<not> coordinatorQuit (quitLoop e k q) \<and> busyCount (quitLoop e k q) = 0
              \<and> pending (quitLoop e k q) = [] \<and> quitIsSet (quitLoop e k q)
           then (quitLoop e k q)\<lparr>coordinatorQuit := True,
                  coordQuits := coordQuits (quitLoop e k q) + 1\<rparr>
           else quitLoop e k q)"
    unfolding assms by (simp add: quitIdlers_def Let_def coordinator_quit_def)
  then show ?thesis by (simp only: quitLoop_frame)
qed


lemma quitIdlers_None:
  assumes "0 \<le> busyCount q"
  shows "idle (quitIdlers e None q) = []
       \<and> toShrink (quitIdlers e None q) = toShrink q + busyCount q
       \<and> busyCount (quitIdlers e None q) = busyCount q
       \<and> pending (quitIdlers e None q) = pending q
       \<and> quitIsSet (quitIdlers e None q) = quitIsSet q"
proof -
  define k where "k = nat (case None of None \<Rightarrow> int (length (idle q)) + busyCount q | Some m \<Rightarrow> m)"
  have k: "length (idle q) \<le> k" and d: "int (k - length (idle q)) = busyCount q"
    using assms by (simp_all add: k_def)
  note e1 = quitLoop_empties [OF k, of e]
  note e2 = quitLoop_frame [of e k q]
  show ?thesis
    unfolding quitIdlers_via_loop [OF k_def]
    using e1 e2 d by (simp split: if_splits)
qed

lemma quitIdlers_retired_already:
  assumes "coordinatorQuit q"
  shows "coordinatorQuit (quitIdlers e n q) \<and> coordQuits (quitIdlers e n q) = coordQuits q"
proof -
  define k where "k = nat (case n of None \<Rightarrow> int (length (idle q)) + busyCount q | Some m \<Rightarrow> m)"
  show ?thesis
    unfolding quitIdlers_via_loop [OF k_def]
    using assms quitLoop_frame [of e k q] by simp
qed

lemma quitIdlers_retires_guarded:
  "coordQuits (quitIdlers e n q) = coordQuits q
   \<or> (coordQuits (quitIdlers e n q) = coordQuits q + 1 \<and> \<not> coordinatorQuit q
      \<and> quitIsSet q \<and> busyCount q = 0 \<and> pending q = [])"
proof -
  define k where "k = nat (case n of None \<Rightarrow> int (length (idle q)) + busyCount q | Some m \<Rightarrow> m)"
  show ?thesis
    unfolding quitIdlers_via_loop [OF k_def]
    using quitLoop_frame [of e k q] by simp
qed

subsection \<open>The bookkeeping invariant is kept by every step\<close>

lemma accounted_transfer:
  assumes "accounted hs p" and "books hs' p' = books hs p" and "created p' = created p"
    and "busyCount p' - int (length (busyWorkers p')) = busyCount p - int (length (busyWorkers p))"
    and "coordQuits p' = coordQuits p" and "coordinatorQuit p' = coordinatorQuit p"
  shows "accounted hs' p'"
  using assms by (simp add: accounted_def del: mset_upt)

lemma held_not_idle:
  assumes "accounted hs p" and "w \<in> set hs"
  shows "w \<notin> set (idle p)"
proof
  assume "w \<in> set (idle p)"
  then have "count (mset (idle p)) w \<ge> 1" by simp
  moreover have "count (mset hs) w \<ge> 1" using assms(2) by simp
  ultimately have "count (books hs p) w \<ge> 2"
    by (simp only: books_def count_union)
  moreover have "count (mset [0..<created p]) w = (if w \<in> set [0..<created p] then 1 else 0)"
    using distinct_upt [of 0 "created p"] unfolding distinct_count_atmost_1 by blast
  ultimately show False using assms(1)
    by (simp add: accounted_def del: mset_upt split: if_splits)
qed

lemma books_pop_quit:
  assumes "v \<in> set (idle p)"
  shows "books [] (p\<lparr>idle := remove1 v (idle p), popCalls := k, retired := retired p @ [v]\<rparr>) = books [] p"
  using assms by (simp add: books_def busyWorkers_def)

lemma accounted_pop_quit:
  assumes "accounted [] p" and "idle p \<noteq> []"
  shows "accounted [] (worker_quit (fst (idle_pop e p)) (snd (idle_pop e p)))"
proof (rule accounted_transfer [OF assms(1)])
  let ?v = "fst (idle_pop e p)"
  have v: "?v \<in> set (idle p)" by (rule idle_pop_mem [OF assms(2)])
  show "books [] (worker_quit ?v (snd (idle_pop e p))) = books [] p"
    using books_pop_quit [OF v] by (simp add: worker_quit_def idle_pop_simps)
qed (simp_all add: worker_quit_def idle_pop_simps busyWorkers_def)

lemma accounted_toShrink: "accounted hs p \<Longrightarrow> accounted hs (p\<lparr>toShrink := k\<rparr>)"
  by (erule accounted_transfer) (simp_all add: books_def busyWorkers_def)

lemma accounted_quitLoop: "accounted [] p \<Longrightarrow> accounted [] (quitLoop e k p)"
proof (induction k arbitrary: p)
  case 0
  then show ?case by simp
next
  case (Suc k)
  show ?case
  proof (cases "idle p = []")
    case True
    then show ?thesis using Suc.IH [OF accounted_toShrink [OF Suc.prems]] by simp
  next
    case False
    then show ?thesis
      using Suc.IH [OF accounted_pop_quit [OF Suc.prems False]]
      by (simp add: case_prod_beta)
  qed
qed

lemma accounted_quitIdlers:
  assumes "accounted [] p"
  shows "accounted [] (quitIdlers e n p)"
proof -
  let ?q = "quitLoop e (nat (case n of None \<Rightarrow> int (length (idle p)) + busyCount p | Some k \<Rightarrow> k)) p"
  have q: "accounted [] ?q" using assms by (rule accounted_quitLoop)
  have "accounted [] (coordinator_quit (?q\<lparr>coordinatorQuit := True\<rparr>))" if "\<not> coordinatorQuit ?q"
    using q that
    by (simp add: accounted_def books_def busyWorkers_def coordinator_quit_def del: mset_upt)
  with q show ?thesis
    by (simp add: quitIdlers_def Let_def)
qed

lemma accounted_coordinateThisTask:
  assumes "accounted [] p"
  shows "accounted [] (coordinateThisTask e t p)"
proof (cases "idle p = []")
  case True
  show ?thesis
  proof (cases "admits e (factoryCalls p)")
    case False
    have "accounted [] (p\<lparr>factoryCalls := factoryCalls p + 1, pending := pending p @ [t],
            backlogged := backlogged p @ [t]\<rparr>)"
      by (rule accounted_transfer [OF assms]) (simp_all add: books_def busyWorkers_def)
    with True False show ?thesis
      by (simp add: coordinateThisTask_def createWorker_def)
  next
    case adm: True
    have "accounted [] (p\<lparr>created := created p + 1, factoryCalls := factoryCalls p + 1,
            busyCount := busyCount p + 1, workerQ := workerQ p @ [(created p, DoWork t)],
            dispatched := dispatched p @ [(created p, t)]\<rparr>)"
      using assms
      by (simp add: accounted_def books_def busyWorkers_def del: mset_upt)
    with True adm show ?thesis
      by (simp add: coordinateThisTask_def createWorker_def worker_do_def)
  qed
next
  case False
  from coordinateThisTask_idle [OF this, of e t] obtain v where
    v: "v \<in> set (idle p)" and
    eq: "coordinateThisTask e t p =
           p\<lparr>idle := remove1 v (idle p), popCalls := popCalls p + 1,
             busyCount := busyCount p + 1, workerQ := workerQ p @ [(v, DoWork t)],
             dispatched := dispatched p @ [(v, t)]\<rparr>"
    by blast
  show ?thesis unfolding eq
    by (rule accounted_transfer [OF assms]) (use v in \<open>simp_all add: books_def busyWorkers_def\<close>)
qed

lemma accounted_recycleWorker:
  assumes "accounted [w] p"
  shows "accounted [] (recycleWorker e w p)"
proof -
  let ?p1 = "p\<lparr>idle := idle_add w (idle p)\<rparr>"
  have nin: "w \<notin> set (idle p)" using held_not_idle [OF assms] by simp
  have p1: "accounted [] ?p1"
    by (rule accounted_transfer [OF assms])
       (use nin in \<open>simp_all add: books_def busyWorkers_def idle_add_def\<close>)
  show ?thesis
  proof (cases "pending p \<noteq> []")
    case True
    have "accounted [] (?p1\<lparr>pending := tl (pending p)\<rparr>)"
      by (rule accounted_transfer [OF p1]) (simp_all add: books_def busyWorkers_def)
    from accounted_coordinateThisTask [OF this] True show ?thesis
      by (simp add: recycleWorker_def Let_def)
  next
    case False
    show ?thesis
    proof (cases "quitIsSet p")
      case True
      with False accounted_quitIdlers [OF p1] show ?thesis
        by (simp add: recycleWorker_def Let_def)
    next
      case nq: False
      show ?thesis
      proof (cases "toShrink p > 0")
        case True
        have "accounted [] (p\<lparr>toShrink := toShrink p - 1, idle := remove1 w (idle_add w (idle p)),
                retired := retired p @ [w]\<rparr>)"
          by (rule accounted_transfer [OF assms])
             (use nin in \<open>simp_all add: books_def busyWorkers_def idle_add_def\<close>)
        with True False nq show ?thesis
          by (simp add: recycleWorker_def Let_def worker_quit_def)
      next
        case False
        with \<open>\<not> pending p \<noteq> []\<close> nq p1 show ?thesis
          by (simp add: recycleWorker_def Let_def)
      qed
    qed
  qed
qed

lemma accounted_createOneWorker: "accounted [] p \<Longrightarrow> accounted [] (createOneWorker e k p)"
proof (induction k arbitrary: p)
  case 0
  then show ?case by simp
next
  case (Suc k)
  show ?case
  proof (cases "admits e (factoryCalls p)")
    case False
    have "accounted [] (p\<lparr>factoryCalls := factoryCalls p + 1\<rparr>)"
      by (rule accounted_transfer [OF Suc.prems]) (simp_all add: books_def busyWorkers_def)
    with False show ?thesis
      by (simp add: createWorker_def)
  next
    case True
    let ?p1 = "p\<lparr>created := created p + 1, factoryCalls := factoryCalls p + 1\<rparr>"
    have "accounted [created p] ?p1" using Suc.prems
      by (simp add: accounted_def books_def busyWorkers_def del: mset_upt)
    from Suc.IH [OF accounted_recycleWorker [OF this]] True show ?thesis
      by (simp add: createWorker_def)
  qed
qed

lemma accounted_idleAndPending:
  assumes "accounted [] p" and "coordQ p = IdleAndPending w # rest"
  shows "accounted [] (idleAndPending e w (p\<lparr>coordQ := rest\<rparr>))"
proof -
  have "accounted [w] (p\<lparr>coordQ := rest, busyCount := busyCount p - 1\<rparr>)"
    by (rule accounted_transfer [OF assms(1)])
       (use assms(2) in \<open>simp_all add: books_def busyWorkers_def\<close>)
  from accounted_recycleWorker [OF this] show ?thesis
    by (simp add: idleAndPending_def)
qed

lemma accounted_dequeue:
  assumes "accounted [] p" and "coordQ p = it # rest" and "returning [it] = []"
  shows "accounted [] (p\<lparr>coordQ := rest\<rparr>)"
proof (rule accounted_transfer [OF assms(1)])
  have "returning (it # rest) = returning rest" using assms(3) by (cases it) simp_all
  then show "books [] (p\<lparr>coordQ := rest\<rparr>) = books [] p"
    and "busyCount (p\<lparr>coordQ := rest\<rparr>) - int (length (busyWorkers (p\<lparr>coordQ := rest\<rparr>)))
         = busyCount p - int (length (busyWorkers p))"
    using assms(2) by (simp_all add: books_def busyWorkers_def)
qed simp_all

lemma accounted_coordinator_runs:
  assumes "accounted [] p"
  shows "accounted [] (coordinator_runs e p)"
proof (cases "coordQ p")
  case Nil
  then show ?thesis using assms by (simp add: coordinator_runs_def)
next
  case (Cons it rest)
  show ?thesis
  proof (cases it)
    case (IdleAndPending w)
    with Cons accounted_idleAndPending [OF assms, of w rest e] show ?thesis
      by (simp add: coordinator_runs_def)
  next
    case (CreateOneWorker n)
    then have "accounted [] (p\<lparr>coordQ := rest\<rparr>)"
      using accounted_dequeue [OF assms Cons] by simp
    from accounted_createOneWorker [OF this] Cons CreateOneWorker show ?thesis
      by (simp add: coordinator_runs_def)
  next
    case (QuitIdlers n)
    then have "accounted [] (p\<lparr>coordQ := rest\<rparr>)"
      using accounted_dequeue [OF assms Cons] by simp
    from accounted_quitIdlers [OF this] Cons QuitIdlers show ?thesis
      by (simp add: coordinator_runs_def)
  next
    case (CoordinateThisTask t)
    then have "accounted [] (p\<lparr>coordQ := rest\<rparr>)"
      using accounted_dequeue [OF assms Cons] by simp
    from accounted_coordinateThisTask [OF this] Cons CoordinateThisTask show ?thesis
      by (simp add: coordinator_runs_def)
  qed
qed

lemma returning_append: "returning (its @ [it]) = returning its @ returning [it]"
  by (induction its rule: returning.induct) simp_all

lemma takeItem_Some:
  "takeItem w q = Some (it, rest) \<Longrightarrow>
     mset (map fst q) = add_mset w (mset (map fst rest)) \<and> length q = Suc (length rest)"
  by (induction w q arbitrary: it rest rule: takeItem.induct)
     (auto split: if_splits option.splits)

lemma doWork_state:
  "snd (doWork t w p) =
     p\<lparr>executed := executed p @ [(w, t)],
       logged := (case body t of Raises x \<Rightarrow> logged p @ [x] | Returns \<Rightarrow> logged p),
       coordQ := coordQ p @ [IdleAndPending w]\<rparr>"
  by (cases "body t") (simp_all add: doWork_def logException_def coordinator_do_def)

lemma accounted_worker_runs:
  assumes "accounted [] p"
  shows "accounted [] (worker_runs w p)"
proof (cases "takeItem w (workerQ p)")
  case None
  then show ?thesis using assms by (simp add: worker_runs_def)
next
  case (Some a)
  obtain it rest where a: "a = (it, rest)" by (cases a)
  obtain t where it: "it = DoWork t" by (cases it)
  note tk = takeItem_Some [OF Some [unfolded a]]
  have "accounted [] (snd (doWork t w (p\<lparr>workerQ := rest\<rparr>)))"
    unfolding doWork_state
    by (rule accounted_transfer [OF assms])
       (use tk in \<open>simp_all add: books_def busyWorkers_def returning_append\<close>)
  with Some a it show ?thesis by (simp add: worker_runs_def)
qed

lemma accounted_enqueue:
  assumes "accounted [] p" and "returning [it] = []"
  shows "accounted [] (coordinator_do it p)"
  by (rule accounted_transfer [OF assms(1)])
     (use assms(2) in \<open>simp_all add: books_def busyWorkers_def coordinator_do_def returning_append\<close>)

lemma accounted_step:
  assumes "accounted [] p"
  shows "accounted [] (step e p ev)"
proof (cases ev)
  case (Do t)
  from accounted_enqueue [OF assms, of "CoordinateThisTask t"] assms Do show ?thesis
    by (simp add: team_do_def split: sum.splits)
next
  case (Grow n)
  from accounted_enqueue [OF assms, of "CreateOneWorker n"] assms Grow show ?thesis
    by (simp add: grow_def split: sum.splits)
next
  case (Shrink n)
  from accounted_enqueue [OF assms, of "QuitIdlers n"] assms Shrink show ?thesis
    by (simp add: shrink_def split: sum.splits)
next
  case Quit
  have "accounted [] (p\<lparr>quitIsSet := True\<rparr>)"
    by (rule accounted_transfer [OF assms]) (simp_all add: books_def busyWorkers_def)
  from accounted_enqueue [OF this, of "QuitIdlers None"] assms Quit show ?thesis
    by (simp add: quit_def Quit_set_def Quit_check_def)
next
  case CoordinatorRuns
  with assms show ?thesis by (simp add: accounted_coordinator_runs)
next
  case (WorkerRuns w)
  with assms show ?thesis by (simp add: accounted_worker_runs)
qed

lemma accounted_init: "accounted [] Team_init"
  by (simp add: accounted_def books_def busyWorkers_def Team_init_def)

lemma accounted_run: "accounted [] p \<Longrightarrow> accounted [] (run e evs p)"
  unfolding run_def by (induction evs arbitrary: p) (simp_all add: accounted_step)

lemma accounted_sizes:
  assumes "accounted [] p"
  shows "int (length (idle p)) + busyCount p = int (created p) - int (length (retired p))"
proof -
  have "size (books [] p) = size (mset [0..<created p])"
    using assms by (simp add: accounted_def del: mset_upt)
  then have "length (busyWorkers p) + length (idle p) + length (retired p) = created p"
    by (simp add: books_def del: mset_upt)
  moreover have "busyCount p = int (length (busyWorkers p))"
    using assms by (simp add: accounted_def del: mset_upt)
  ultimately show ?thesis by linarith
qed

lemma accounted_partition:
  assumes "accounted [] p"
  shows "distinct (busyWorkers p @ idle p @ retired p)"
    and "set (busyWorkers p @ idle p @ retired p) = {..<created p}"
proof -
  have eq: "mset (busyWorkers p @ idle p @ retired p) = mset [0..<created p]"
    using assms by (simp add: accounted_def books_def add.assoc del: mset_upt)
  from eq show "distinct (busyWorkers p @ idle p @ retired p)"
    by (metis distinct_upt mset_eq_imp_distinct_iff)
  from eq have "set (busyWorkers p @ idle p @ retired p) = set [0..<created p]"
    by (rule mset_eq_setD)
  then show "set (busyWorkers p @ idle p @ retired p) = {..<created p}"
    by (simp add: atLeast0LessThan)
qed

lemma coordinator_quit_at_most_once: "coordQuits (run e evs Team_init) \<le> 1"
  using accounted_run [OF accounted_init, of e evs] by (simp add: accounted_def del: mset_upt)

subsection \<open>The scenarios, run\<close>

lemma shrink_then_quit_state:
  "run factory_always shrink_then_quit Team_init =
     \<lparr> quitIsSet = True, idle = [0, 1, 2], busyCount = 0, pending = [],
       coordinatorQuit = False, toShrink = 0,
       coordQ = [QuitIdlers (Some 1), QuitIdlers None], workerQ = [], created = 3,
       factoryCalls = 3, popCalls = 0, retired = [], coordQuits = 0, executed = [],
       logged = [], backlogged = [], dispatched = [] \<rparr>"
  by code_simp

lemma backlog_and_debt_state:
  "run factory_once backlog_and_debt Team_init =
     \<lparr> quitIsSet = False, idle = [], busyCount = 1, pending = [Task 2 Returns],
       coordinatorQuit = False, toShrink = 1, coordQ = [IdleAndPending 0], workerQ = [],
       created = 1, factoryCalls = 2, popCalls = 0, retired = [], coordQuits = 0,
       executed = [(0, Task 1 Returns)], logged = [], backlogged = [Task 2 Returns],
       dispatched = [(0, Task 1 Returns)] \<rparr>"
  by code_simp

lemma quit_while_busy_state:
  "run factory_always quit_while_busy Team_init =
     \<lparr> quitIsSet = True, idle = [], busyCount = 1, pending = [],
       coordinatorQuit = False, toShrink = 1, coordQ = [],
       workerQ = [(0, DoWork (Task 1 Returns))], created = 1, factoryCalls = 1,
       popCalls = 0, retired = [], coordQuits = 0, executed = [], logged = [],
       backlogged = [], dispatched = [(0, Task 1 Returns)] \<rparr>"
  by code_simp

lemma debt_only_state:
  "run factory_always debt_only Team_init =
     \<lparr> quitIsSet = False, idle = [], busyCount = 1, pending = [],
       coordinatorQuit = False, toShrink = 1, coordQ = [],
       workerQ = [(0, DoWork (Task 1 Returns))], created = 1, factoryCalls = 1,
       popCalls = 0, retired = [], coordQuits = 0, executed = [], logged = [],
       backlogged = [], dispatched = [(0, Task 1 Returns)] \<rparr>"
  by code_simp

lemma one_idle_state:
  "run factory_always one_idle Team_init =
     \<lparr> quitIsSet = False, idle = [0], busyCount = 0, pending = [],
       coordinatorQuit = False, toShrink = 0, coordQ = [], workerQ = [], created = 1,
       factoryCalls = 1, popCalls = 0, retired = [], coordQuits = 0, executed = [],
       logged = [], backlogged = [], dispatched = [] \<rparr>"
  by code_simp

lemma one_busy_state:
  "run factory_once one_busy Team_init =
     \<lparr> quitIsSet = False, idle = [], busyCount = 1, pending = [],
       coordinatorQuit = False, toShrink = 0, coordQ = [],
       workerQ = [(0, DoWork (Task 1 Returns))], created = 1, factoryCalls = 1,
       popCalls = 0, retired = [], coordQuits = 0, executed = [], logged = [],
       backlogged = [], dispatched = [(0, Task 1 Returns)] \<rparr>"
  by code_simp

lemma declined_then_admitted_executed:
  "executed (run factory_after_three declined_then_admitted Team_init)
     = [(0, Task 1 Returns), (0, Task 2 Returns), (0, Task 3 Returns)]"
  by code_simp

subsection \<open>The order of the backlog, over every run\<close>

lemma quitLoop_traces:
  "backlogged (quitLoop e k p) = backlogged p \<and> dispatched (quitLoop e k p) = dispatched p
   \<and> workerQ (quitLoop e k p) = workerQ p \<and> executed (quitLoop e k p) = executed p
   \<and> logged (quitLoop e k p) = logged p \<and> coordQ (quitLoop e k p) = coordQ p"
  by (induction k arbitrary: p) (simp_all add: idle_pop_def worker_quit_def Let_def)

lemma quitIdlers_traces:
  "pending (quitIdlers e n p) = pending p \<and> backlogged (quitIdlers e n p) = backlogged p
   \<and> dispatched (quitIdlers e n p) = dispatched p \<and> workerQ (quitIdlers e n p) = workerQ p
   \<and> executed (quitIdlers e n p) = executed p \<and> logged (quitIdlers e n p) = logged p
   \<and> coordQ (quitIdlers e n p) = coordQ p"
proof -
  define k where "k = nat (case n of None \<Rightarrow> int (length (idle p)) + busyCount p | Some m \<Rightarrow> m)"
  show ?thesis
    unfolding quitIdlers_via_loop [OF k_def]
    using quitLoop_traces [of e k p] quitLoop_frame [of e k p] by simp
qed

lemma coordinateThisTask_created:
  assumes "idle p = []" and "admits e (factoryCalls p)"
  shows "coordinateThisTask e t p =
           p\<lparr>created := created p + 1, factoryCalls := factoryCalls p + 1,
             busyCount := busyCount p + 1, workerQ := workerQ p @ [(created p, DoWork t)],
             dispatched := dispatched p @ [(created p, t)]\<rparr>"
  using assms by (simp add: coordinateThisTask_def createWorker_def worker_do_def)

lemma coordinateThisTask_declined:
  assumes "idle p = []" and "\<not> admits e (factoryCalls p)"
  shows "coordinateThisTask e t p =
           p\<lparr>factoryCalls := factoryCalls p + 1, pending := pending p @ [t],
             backlogged := backlogged p @ [t]\<rparr>"
  using assms by (simp add: coordinateThisTask_def createWorker_def)

text \<open>What a dispatch does to the backlog and to the traces: one of two things.\<close>

lemma coordinateThisTask_order:
  "(\<exists>v. pending (coordinateThisTask e t p) = pending p
       \<and> backlogged (coordinateThisTask e t p) = backlogged p
       \<and> dispatched (coordinateThisTask e t p) = dispatched p @ [(v, t)]
       \<and> workerQ (coordinateThisTask e t p) = workerQ p @ [(v, DoWork t)]
       \<and> executed (coordinateThisTask e t p) = executed p)
   \<or> (idle p = [] \<and> pending (coordinateThisTask e t p) = pending p @ [t]
       \<and> backlogged (coordinateThisTask e t p) = backlogged p @ [t]
       \<and> dispatched (coordinateThisTask e t p) = dispatched p
       \<and> workerQ (coordinateThisTask e t p) = workerQ p
       \<and> executed (coordinateThisTask e t p) = executed p)"
proof (cases "idle p = []")
  case False
  from coordinateThisTask_idle [OF this, of e t] show ?thesis by auto
next
  case True
  show ?thesis
  proof (cases "admits e (factoryCalls p)")
    case True
    with \<open>idle p = []\<close> show ?thesis by (simp add: coordinateThisTask_created)
  next
    case False
    with \<open>idle p = []\<close> show ?thesis by (simp add: coordinateThisTask_declined)
  qed
qed

lemma drained_eq:
  assumes "backlogged p = ds @ pending p"
  shows "drained p = ds"
  unfolding drained_def assms by simp

lemma fifoI:
  assumes "backlogged p = ds @ pending p" and "subseq ds (map snd (dispatched p))"
  shows "fifo p"
  using assms drained_eq [OF assms(1)] by (simp add: fifo_def)

lemma fifo_same:
  assumes "fifo p" and "pending p' = pending p" and "backlogged p' = backlogged p"
    and "dispatched p' = dispatched p"
  shows "fifo p'"
  using assms by (simp add: fifo_def drained_def)

lemma fifo_backlogged:
  assumes "fifo p" and "pending p' = pending p @ [t]" and "backlogged p' = backlogged p @ [t]"
    and "dispatched p' = dispatched p"
  shows "fifo p'"
proof (rule fifoI)
  from assms(1) have b: "backlogged p = drained p @ pending p"
    and s: "subseq (drained p) (map snd (dispatched p))" by (simp_all add: fifo_def)
  show "backlogged p' = drained p @ pending p'" using b assms(2,3) by simp
  show "subseq (drained p) (map snd (dispatched p'))" using s assms(4) by simp
qed

lemma fifo_dispatched:
  assumes "fifo p" and "pending p' = pending p" and "backlogged p' = backlogged p"
    and "dispatched p' = dispatched p @ [(v, t)]"
  shows "fifo p'"
proof (rule fifoI)
  from assms(1) have b: "backlogged p = drained p @ pending p"
    and s: "subseq (drained p) (map snd (dispatched p))" by (simp_all add: fifo_def)
  show "backlogged p' = drained p @ pending p'" using b assms(2,3) by simp
  show "subseq (drained p) (map snd (dispatched p'))"
    using s assms(4) by (simp add: list_emb_prefix)
qed

lemma fifo_drained:
  assumes "fifo p" and "pending p = t # pending p'" and "backlogged p' = backlogged p"
    and "dispatched p' = dispatched p @ [(v, t)]"
  shows "fifo p'"
proof (rule fifoI)
  from assms(1) have b: "backlogged p = drained p @ pending p"
    and s: "subseq (drained p) (map snd (dispatched p))" by (simp_all add: fifo_def)
  show "backlogged p' = (drained p @ [t]) @ pending p'" using b assms(2,3) by simp
  show "subseq (drained p @ [t]) (map snd (dispatched p'))"
    using s assms(4) by (simp add: list_emb_append_mono)
qed

lemma fifo_coordinateThisTask: "fifo p \<Longrightarrow> fifo (coordinateThisTask e t p)"
  using coordinateThisTask_order [of e t p]
  by (auto intro: fifo_dispatched fifo_backlogged)

lemma recycleWorker_backlog:
  assumes "pending p = t # ts"
  shows "\<exists>v. recycleWorker e w p =
           p\<lparr>idle := remove1 v (idle_add w (idle p)), pending := ts,
             popCalls := popCalls p + 1, busyCount := busyCount p + 1,
             workerQ := workerQ p @ [(v, DoWork t)],
             dispatched := dispatched p @ [(v, t)]\<rparr>"
proof -
  let ?p1 = "p\<lparr>idle := idle_add w (idle p), pending := ts\<rparr>"
  have ne: "idle ?p1 \<noteq> []" using idle_add_mem [of w "idle p"] by auto
  have "recycleWorker e w p = coordinateThisTask e t ?p1"
    using assms by (simp add: recycleWorker_def Let_def)
  moreover from coordinateThisTask_idle [OF ne, of e t] obtain v where
    "coordinateThisTask e t ?p1 =
       ?p1\<lparr>idle := remove1 v (idle ?p1), popCalls := popCalls ?p1 + 1,
         busyCount := busyCount ?p1 + 1, workerQ := workerQ ?p1 @ [(v, DoWork t)],
         dispatched := dispatched ?p1 @ [(v, t)]\<rparr>" by blast
  ultimately have "recycleWorker e w p =
           p\<lparr>idle := remove1 v (idle_add w (idle p)), pending := ts,
             popCalls := popCalls p + 1, busyCount := busyCount p + 1,
             workerQ := workerQ p @ [(v, DoWork t)],
             dispatched := dispatched p @ [(v, t)]\<rparr>" by simp
  then show ?thesis by (rule exI)
qed

lemma recycleWorker_no_backlog:
  assumes "pending p = []"
  shows "pending (recycleWorker e w p) = [] \<and> backlogged (recycleWorker e w p) = backlogged p
       \<and> dispatched (recycleWorker e w p) = dispatched p
       \<and> workerQ (recycleWorker e w p) = workerQ p
       \<and> executed (recycleWorker e w p) = executed p"
  using assms by (simp add: recycleWorker_def Let_def quitIdlers_traces worker_quit_def)

lemma fifo_recycleWorker:
  assumes "fifo p"
  shows "fifo (recycleWorker e w p)"
proof (cases "pending p")
  case Nil
  from recycleWorker_no_backlog [OF Nil, of e w] Nil show ?thesis
    by (intro fifo_same [OF assms]) simp_all
next
  case (Cons t ts)
  from recycleWorker_backlog [OF Cons, of e w] obtain v where
    eq: "recycleWorker e w p =
           p\<lparr>idle := remove1 v (idle_add w (idle p)), pending := ts,
             popCalls := popCalls p + 1, busyCount := busyCount p + 1,
             workerQ := workerQ p @ [(v, DoWork t)],
             dispatched := dispatched p @ [(v, t)]\<rparr>" by blast
  show ?thesis
    by (rule fifo_drained [OF assms, where t = t and v = v]) (simp_all add: eq Cons)
qed

lemma fifo_createOneWorker: "fifo p \<Longrightarrow> fifo (createOneWorker e k p)"
proof (induction k arbitrary: p)
  case 0
  then show ?case by simp
next
  case (Suc k)
  show ?case
  proof (cases "admits e (factoryCalls p)")
    case False
    have "fifo (p\<lparr>factoryCalls := factoryCalls p + 1\<rparr>)"
      by (rule fifo_same [OF Suc.prems]) simp_all
    with False show ?thesis by (simp add: createWorker_def)
  next
    case True
    have "fifo (p\<lparr>created := created p + 1, factoryCalls := factoryCalls p + 1\<rparr>)"
      by (rule fifo_same [OF Suc.prems]) simp_all
    from Suc.IH [OF fifo_recycleWorker [OF this]] True show ?thesis
      by (simp add: createWorker_def)
  qed
qed

lemma fifo_run_item:
  assumes "fifo p"
  shows "fifo (run_item e it p)"
proof (cases it)
  case (CreateOneWorker n)
  with assms show ?thesis by (simp add: fifo_createOneWorker)
next
  case (QuitIdlers n)
  have "fifo (quitIdlers e n p)"
    by (rule fifo_same [OF assms]) (simp_all add: quitIdlers_traces)
  with QuitIdlers show ?thesis by simp
next
  case (CoordinateThisTask t)
  with assms show ?thesis by (simp add: fifo_coordinateThisTask)
next
  case (IdleAndPending w)
  have "fifo (p\<lparr>busyCount := busyCount p - 1\<rparr>)"
    by (rule fifo_same [OF assms]) simp_all
  from fifo_recycleWorker [OF this] IdleAndPending show ?thesis
    by (simp add: idleAndPending_def)
qed

lemma fifo_coordinator_runs:
  assumes "fifo p"
  shows "fifo (coordinator_runs e p)"
proof (cases "coordQ p")
  case Nil
  with assms show ?thesis by (simp add: coordinator_runs_def)
next
  case (Cons it rest)
  have "fifo (p\<lparr>coordQ := rest\<rparr>)" by (rule fifo_same [OF assms]) simp_all
  from fifo_run_item [OF this] Cons show ?thesis by (simp add: coordinator_runs_def)
qed

lemma worker_runs_state:
  "worker_runs w p = p
   \<or> (\<exists>t rest. takeItem w (workerQ p) = Some (DoWork t, rest)
        \<and> worker_runs w p =
            p\<lparr>workerQ := rest, executed := executed p @ [(w, t)],
              logged := (case body t of Raises x \<Rightarrow> logged p @ [x] | Returns \<Rightarrow> logged p),
              coordQ := coordQ p @ [IdleAndPending w]\<rparr>)"
proof (cases "takeItem w (workerQ p)")
  case None
  then show ?thesis by (simp add: worker_runs_def)
next
  case (Some a)
  obtain it rest where a: "a = (it, rest)" by (cases a)
  obtain t where it: "it = DoWork t" by (cases it)
  have "worker_runs w p =
            p\<lparr>workerQ := rest, executed := executed p @ [(w, t)],
              logged := (case body t of Raises x \<Rightarrow> logged p @ [x] | Returns \<Rightarrow> logged p),
              coordQ := coordQ p @ [IdleAndPending w]\<rparr>"
    using Some a it by (cases "body t") (simp_all add: worker_runs_def doWork_state)
  with Some a it show ?thesis by blast
qed

lemma step_public:
  assumes "ev \<noteq> CoordinatorRuns" and "\<forall>w. ev \<noteq> WorkerRuns w"
  shows "pending (step e p ev) = pending p \<and> backlogged (step e p ev) = backlogged p
       \<and> dispatched (step e p ev) = dispatched p \<and> workerQ (step e p ev) = workerQ p
       \<and> executed (step e p ev) = executed p"
  using assms
  by (cases ev)
     (simp_all add: team_do_def grow_def shrink_def quit_def Quit_set_def Quit_check_def
        coordinator_do_def)

lemma fifo_step:
  assumes "fifo p"
  shows "fifo (step e p ev)"
proof (cases "ev = CoordinatorRuns")
  case True
  with assms show ?thesis by (simp add: fifo_coordinator_runs)
next
  case False
  show ?thesis
  proof (cases "\<exists>w. ev = WorkerRuns w")
    case True
    then obtain w where w: "ev = WorkerRuns w" by blast
    from worker_runs_state [of w p] have "fifo (worker_runs w p)"
      by (auto intro: fifo_same [OF assms] simp: assms)
    with w show ?thesis by simp
  next
    case nw: False
    from step_public [of ev e p] False nw show ?thesis
      by (intro fifo_same [OF assms]) simp_all
  qed
qed

lemma fifo_init: "fifo Team_init"
  by (simp add: fifo_def drained_def Team_init_def)

lemma fifo_run: "fifo p \<Longrightarrow> fifo (run e evs p)"
  unfolding run_def by (induction evs arbitrary: p) (simp_all add: fifo_step)

subsection \<open>The order of the tasks on one worker, over every run\<close>

lemma served_same:
  assumes "served w p" and "dispatched p' = dispatched p" and "workerQ p' = workerQ p"
    and "executed p' = executed p"
  shows "served w p'"
  using assms by (simp add: served_def handedTo_def ranOn_def queuedFor_def)

lemma served_dispatched:
  assumes "served w p" and "dispatched p' = dispatched p @ [(v, t)]"
    and "workerQ p' = workerQ p @ [(v, DoWork t)]" and "executed p' = executed p"
  shows "served w p'"
  using assms by (simp add: served_def handedTo_def ranOn_def queuedFor_def)

lemma takeItem_filter:
  "takeItem v q = Some (it, rest) \<Longrightarrow>
     filter (\<lambda>x. fst x = w) q
       = (if w = v then (v, it) # filter (\<lambda>x. fst x = w) rest
          else filter (\<lambda>x. fst x = w) rest)"
  by (induction v q arbitrary: it rest rule: takeItem.induct)
     (auto split: if_splits option.splits)

lemma served_ran:
  assumes "served w p" and "takeItem v (workerQ p) = Some (DoWork t, rest)"
    and "workerQ p' = rest" and "executed p' = executed p @ [(v, t)]"
    and "dispatched p' = dispatched p"
  shows "served w p'"
  using assms(1,3,4,5) takeItem_filter [OF assms(2), of w]
  by (simp add: served_def handedTo_def ranOn_def queuedFor_def)

lemma served_coordinateThisTask: "served w p \<Longrightarrow> served w (coordinateThisTask e t p)"
  using coordinateThisTask_order [of e t p]
  by (auto intro: served_dispatched served_same)

lemma served_recycleWorker:
  assumes "served w p"
  shows "served w (recycleWorker e v p)"
proof (cases "pending p")
  case Nil
  from recycleWorker_no_backlog [OF Nil, of e v] show ?thesis
    by (intro served_same [OF assms]) simp_all
next
  case (Cons t ts)
  from recycleWorker_backlog [OF Cons, of e v] obtain u where
    eq: "recycleWorker e v p =
           p\<lparr>idle := remove1 u (idle_add v (idle p)), pending := ts,
             popCalls := popCalls p + 1, busyCount := busyCount p + 1,
             workerQ := workerQ p @ [(u, DoWork t)],
             dispatched := dispatched p @ [(u, t)]\<rparr>" by blast
  show ?thesis
    by (rule served_dispatched [OF assms, where t = t and v = u]) (simp_all add: eq)
qed

lemma served_createOneWorker: "served w p \<Longrightarrow> served w (createOneWorker e k p)"
proof (induction k arbitrary: p)
  case 0
  then show ?case by simp
next
  case (Suc k)
  show ?case
  proof (cases "admits e (factoryCalls p)")
    case False
    have "served w (p\<lparr>factoryCalls := factoryCalls p + 1\<rparr>)"
      by (rule served_same [OF Suc.prems]) simp_all
    with False show ?thesis by (simp add: createWorker_def)
  next
    case True
    have "served w (p\<lparr>created := created p + 1, factoryCalls := factoryCalls p + 1\<rparr>)"
      by (rule served_same [OF Suc.prems]) simp_all
    from Suc.IH [OF served_recycleWorker [OF this]] True show ?thesis
      by (simp add: createWorker_def)
  qed
qed

lemma served_run_item:
  assumes "served w p"
  shows "served w (run_item e it p)"
proof (cases it)
  case (CreateOneWorker n)
  with assms show ?thesis by (simp add: served_createOneWorker)
next
  case (QuitIdlers n)
  have "served w (quitIdlers e n p)"
    by (rule served_same [OF assms]) (simp_all add: quitIdlers_traces)
  with QuitIdlers show ?thesis by simp
next
  case (CoordinateThisTask t)
  with assms show ?thesis by (simp add: served_coordinateThisTask)
next
  case (IdleAndPending v)
  have "served w (p\<lparr>busyCount := busyCount p - 1\<rparr>)"
    by (rule served_same [OF assms]) simp_all
  from served_recycleWorker [OF this] IdleAndPending show ?thesis
    by (simp add: idleAndPending_def)
qed

lemma served_coordinator_runs:
  assumes "served w p"
  shows "served w (coordinator_runs e p)"
proof (cases "coordQ p")
  case Nil
  with assms show ?thesis by (simp add: coordinator_runs_def)
next
  case (Cons it rest)
  have "served w (p\<lparr>coordQ := rest\<rparr>)" by (rule served_same [OF assms]) simp_all
  from served_run_item [OF this] Cons show ?thesis by (simp add: coordinator_runs_def)
qed

lemma served_worker_runs:
  assumes "served w p"
  shows "served w (worker_runs v p)"
proof -
  from worker_runs_state [of v p] consider "worker_runs v p = p"
    | t rest where "takeItem v (workerQ p) = Some (DoWork t, rest)"
        and "worker_runs v p =
            p\<lparr>workerQ := rest, executed := executed p @ [(v, t)],
              logged := (case body t of Raises x \<Rightarrow> logged p @ [x] | Returns \<Rightarrow> logged p),
              coordQ := coordQ p @ [IdleAndPending v]\<rparr>"
    by blast
  then show ?thesis
  proof cases
    case 1
    with assms show ?thesis by simp
  next
    case 2
    show ?thesis
      by (rule served_ran [OF assms 2(1)]) (simp_all add: 2(2))
  qed
qed

lemma served_step:
  assumes "served w p"
  shows "served w (step e p ev)"
proof (cases "ev = CoordinatorRuns")
  case True
  with assms show ?thesis by (simp add: served_coordinator_runs)
next
  case False
  show ?thesis
  proof (cases "\<exists>v. ev = WorkerRuns v")
    case True
    then obtain v where "ev = WorkerRuns v" by blast
    with served_worker_runs [OF assms, of v] show ?thesis by simp
  next
    case nw: False
    from step_public [of ev e p] False nw show ?thesis
      by (intro served_same [OF assms]) simp_all
  qed
qed

lemma served_init: "served w Team_init"
  by (simp add: served_def handedTo_def ranOn_def queuedFor_def Team_init_def)

lemma served_run: "served w p \<Longrightarrow> served w (run e evs p)"
  unfolding run_def by (induction evs arbitrary: p) (simp_all add: served_step)

lemma two_workers_race_state:
  "run factory_after_three two_workers_race Team_init =
     \<lparr> quitIsSet = False, idle = [], busyCount = 2, pending = [Task 3 Returns],
       coordinatorQuit = False, toShrink = 0,
       coordQ = [IdleAndPending 1, IdleAndPending 0], workerQ = [],
       created = 2, factoryCalls = 5, popCalls = 2, retired = [], coordQuits = 0,
       executed = [(1, Task 2 Returns), (0, Task 1 Returns)], logged = [],
       backlogged = [Task 1 Returns, Task 2 Returns, Task 3 Returns],
       dispatched = [(0, Task 1 Returns), (1, Task 2 Returns)] \<rparr>"
  by code_simp

subsection \<open>The coordinator does not look at the tasks called or the exceptions logged\<close>

lemma untraced_sel:
  "quitIsSet (untraced p) = quitIsSet p"
  "idle (untraced p) = idle p"
  "busyCount (untraced p) = busyCount p"
  "pending (untraced p) = pending p"
  "coordinatorQuit (untraced p) = coordinatorQuit p"
  "toShrink (untraced p) = toShrink p"
  "coordQ (untraced p) = coordQ p"
  "workerQ (untraced p) = workerQ p"
  "created (untraced p) = created p"
  "factoryCalls (untraced p) = factoryCalls p"
  "popCalls (untraced p) = popCalls p"
  "retired (untraced p) = retired p"
  "coordQuits (untraced p) = coordQuits p"
  "backlogged (untraced p) = backlogged p"
  "dispatched (untraced p) = dispatched p"
  by (simp_all add: untraced_def)

lemma untraced_upd:
  "quitIsSet_update f0 (untraced p) = untraced (quitIsSet_update f0 p)"
  "idle_update f1 (untraced p) = untraced (idle_update f1 p)"
  "busyCount_update f2 (untraced p) = untraced (busyCount_update f2 p)"
  "pending_update f3 (untraced p) = untraced (pending_update f3 p)"
  "coordinatorQuit_update f4 (untraced p) = untraced (coordinatorQuit_update f4 p)"
  "toShrink_update f5 (untraced p) = untraced (toShrink_update f5 p)"
  "coordQ_update f6 (untraced p) = untraced (coordQ_update f6 p)"
  "workerQ_update f7 (untraced p) = untraced (workerQ_update f7 p)"
  "created_update f8 (untraced p) = untraced (created_update f8 p)"
  "factoryCalls_update f9 (untraced p) = untraced (factoryCalls_update f9 p)"
  "popCalls_update f10 (untraced p) = untraced (popCalls_update f10 p)"
  "retired_update f11 (untraced p) = untraced (retired_update f11 p)"
  "coordQuits_update f12 (untraced p) = untraced (coordQuits_update f12 p)"
  "backlogged_update f13 (untraced p) = untraced (backlogged_update f13 p)"
  "dispatched_update f14 (untraced p) = untraced (dispatched_update f14 p)"
  by (simp_all add: untraced_def)

lemma untraced_idem:
  "untraced (untraced p) = untraced p"
  "untraced (executed_update f p) = untraced p"
  "untraced (logged_update g p) = untraced p"
  by (simp_all add: untraced_def)

lemma quitLoop_untraced: "quitLoop e k (untraced p) = untraced (quitLoop e k p)"
  by (induction k arbitrary: p)
     (simp_all add: idle_pop_def worker_quit_def Let_def untraced_sel untraced_upd)

lemma quitIdlers_untraced: "quitIdlers e n (untraced p) = untraced (quitIdlers e n p)"
  by (cases n)
     (simp_all add: quitIdlers_def Let_def quitLoop_untraced coordinator_quit_def
        untraced_sel untraced_upd)

lemma coordinateThisTask_untraced:
  "coordinateThisTask e t (untraced p) = untraced (coordinateThisTask e t p)"
  by (simp add: coordinateThisTask_def createWorker_def worker_do_def idle_pop_def Let_def
      untraced_sel untraced_upd)

lemma recycleWorker_untraced:
  "recycleWorker e w (untraced p) = untraced (recycleWorker e w p)"
  by (simp add: recycleWorker_def Let_def worker_quit_def untraced_sel untraced_upd
      coordinateThisTask_untraced quitIdlers_untraced)

lemma createOneWorker_untraced:
  "createOneWorker e k (untraced p) = untraced (createOneWorker e k p)"
  by (induction k arbitrary: p)
     (simp_all add: createWorker_def untraced_sel untraced_upd recycleWorker_untraced)

lemma run_item_untraced: "run_item e it (untraced p) = untraced (run_item e it p)"
  by (cases it)
     (simp_all add: createOneWorker_untraced quitIdlers_untraced coordinateThisTask_untraced
        idleAndPending_def recycleWorker_untraced untraced_upd untraced_sel)

lemma coordinator_runs_untraced:
  "untraced (coordinator_runs e (untraced p)) = untraced (coordinator_runs e p)"
  by (cases "coordQ p")
     (simp_all add: coordinator_runs_def untraced_sel untraced_upd untraced_idem
        run_item_untraced)

lemma worker_runs_untraced:
  "untraced (worker_runs w (untraced p)) = untraced (worker_runs w p)"
  by (simp add: worker_runs_def untraced_def doWork_state
      split: option.splits prod.splits witem.splits)

lemma step_untraced: "untraced (step e (untraced p) ev) = untraced (step e p ev)"
proof (cases ev)
  case CoordinatorRuns
  then show ?thesis by (simp add: coordinator_runs_untraced)
next
  case (WorkerRuns w)
  then show ?thesis by (simp add: worker_runs_untraced)
qed (simp_all add: untraced_def team_do_def grow_def shrink_def quit_def Quit_set_def
      Quit_check_def coordinator_do_def)

lemma run_untraced:
  "untraced p = untraced p' \<Longrightarrow> untraced (run e evs p) = untraced (run e evs p')"
proof (induction evs arbitrary: p p')
  case Nil
  then show ?case by (simp add: run_def)
next
  case (Cons ev evs)
  have "untraced (step e p ev) = untraced (step e p' ev)"
    using step_untraced [of e p ev] step_untraced [of e p' ev] Cons.prems by simp
  from Cons.IH [OF this] show ?case by (simp add: run_def)
qed

lemma idleAndPending_parks:
  assumes "pending q = []" and "\<not> quitIsSet q" and "w \<notin> set (idle q)" and "toShrink q \<le> 0"
  shows "idleAndPending e w q = q\<lparr>busyCount := busyCount q - 1, idle := idle q @ [w]\<rparr>"
  using assms by (simp add: idleAndPending_def recycleWorker_def idle_add_def Let_def)

lemma idleAndPending_pays_debt:
  assumes "pending q = []" and "\<not> quitIsSet q" and "w \<notin> set (idle q)" and "0 < toShrink q"
  shows "idleAndPending e w q =
           q\<lparr>busyCount := busyCount q - 1, toShrink := toShrink q - 1, idle := idle q,
             retired := retired q @ [w]\<rparr>"
  using assms
  by (simp add: idleAndPending_def recycleWorker_def idle_add_def Let_def worker_quit_def
      remove1_append)

lemma raising_dispatched_state:
  "run factory_always raising_dispatched Team_init =
     \<lparr> quitIsSet = False, idle = [], busyCount = 1, pending = [],
       coordinatorQuit = False, toShrink = 0, coordQ = [],
       workerQ = [(0, DoWork (Task 1 (Raises 7)))], created = 1, factoryCalls = 1,
       popCalls = 0, retired = [], coordQuits = 0, executed = [], logged = [],
       backlogged = [], dispatched = [(0, Task 1 (Raises 7))] \<rparr>"
  by code_simp

lemma raising_with_debt_state:
  "run factory_always raising_with_debt Team_init =
     \<lparr> quitIsSet = False, idle = [], busyCount = 1, pending = [],
       coordinatorQuit = False, toShrink = 1, coordQ = [],
       workerQ = [(0, DoWork (Task 1 (Raises 7)))], created = 1, factoryCalls = 1,
       popCalls = 0, retired = [], coordQuits = 0, executed = [], logged = [],
       backlogged = [], dispatched = [(0, Task 1 (Raises 7))] \<rparr>"
  by code_simp

lemma raising_returned_state:
  "run factory_always raising_returned Team_init =
     \<lparr> quitIsSet = False, idle = [0], busyCount = 0, pending = [],
       coordinatorQuit = False, toShrink = 0, coordQ = [], workerQ = [], created = 1,
       factoryCalls = 1, popCalls = 0, retired = [], coordQuits = 0,
       executed = [(0, Task 1 (Raises 7))], logged = [7],
       backlogged = [], dispatched = [(0, Task 1 (Raises 7))] \<rparr>"
  by code_simp

lemma worker_runs_dispatched:
  "worker_runs 0 (run factory_always raising_dispatched Team_init)
     = snd (doWork (Task 1 (Raises 7)) 0
         ((run factory_always raising_dispatched Team_init)\<lparr>workerQ := []\<rparr>))"
  unfolding raising_dispatched_state by (simp add: worker_runs_def)

section \<open>The claims\<close>

text \<open>
  \<^bold>\<open>C1\<close> (retirement of the coordinator).  The coordinator is to be retired at most once, and
  only when quit has been requested, no worker is busy, nothing is pending and no worker is
  idle.  \<^verbatim>\<open>_quitIdlers\<close> guards \<^verbatim>\<open>coordinator.quit()\<close> by \<^verbatim>\<open>_coordinatorQuit\<close>, \<^verbatim>\<open>_busyCount\<close>,
  \<^verbatim>\<open>_pending\<close> and \<^verbatim>\<open>_quit.isSet\<close> (\<open>coordinator_quit_at_most_once\<close>,
  \<open>quitIdlers_retires_guarded\<close>), but not by \<^verbatim>\<open>_idle\<close>: its loop empties the idle set when
  \<^verbatim>\<open>n\<close> is \<^verbatim>\<open>None\<close> and not when \<^verbatim>\<open>shrink(n)\<close> gave a smaller \<^verbatim>\<open>n\<close>.  With three idle workers,
  \<^verbatim>\<open>shrink(1)\<close> accepted and \<^verbatim>\<open>quit()\<close> called before the coordinator runs the item of
  \<^verbatim>\<open>shrink\<close>, that item retires one worker and then calls \<^verbatim>\<open>coordinator.quit()\<close> while two
  workers are idle.
\<close>

theorem coordinator_retired_with_idle_workers:
  "coordQuits (run factory_always shrink_then_quit Team_init) = 0
   \<and> coordQuits (coordinator_runs factory_always (run factory_always shrink_then_quit Team_init)) = 1
   \<and> idle (coordinator_runs factory_always (run factory_always shrink_then_quit Team_init)) = [1, 2]
   \<and> retired (coordinator_runs factory_always (run factory_always shrink_then_quit Team_init)) = [0]"
  unfolding shrink_then_quit_state by code_simp

text \<open>
  \<^bold>\<open>C2\<close> (public operations after quit).  In every state in which quit has been requested,
  \<^verbatim>\<open>Team.do\<close> and \<^verbatim>\<open>Team.grow\<close> fail with the shutting-down error and return the pool as it
  was: no field has changed and nothing has been handed to the coordinator.
\<close>

theorem quit_rejects_do_and_grow:
  assumes "quitIsSet p"
  shows "team_do t p = (Inl PoolShuttingDown, p) \<and> grow n p = (Inl PoolShuttingDown, p)"
  using assms by (simp add: team_do_def grow_def Quit_check_def)

theorem quit_rejects_do_and_grow_witness:
  "quitIsSet (snd (quit Team_init))
   \<and> team_do (Task 1 Returns) (snd (quit Team_init)) = (Inl PoolShuttingDown, snd (quit Team_init))
   \<and> grow 2 (snd (quit Team_init)) = (Inl PoolShuttingDown, snd (quit Team_init))"
proof -
  have h: "quitIsSet (snd (quit Team_init))"
    by (simp add: quit_def Quit_set_def Quit_check_def coordinator_do_def Team_init_def)
  from h quit_rejects_do_and_grow [OF h, of "Task 1 Returns" 2] show ?thesis by simp
qed

text \<open>
  \<^bold>\<open>C3\<close> (dispatch).  \<^verbatim>\<open>_coordinateThisTask\<close> takes a worker out of a non-empty idle set
  without calling the factory; with an empty idle set it calls the factory once.  When the
  factory declines, the task goes to the back of \<^verbatim>\<open>_pending\<close> and \<^verbatim>\<open>_busyCount\<close> stays; when a
  worker is there, \<^verbatim>\<open>_busyCount\<close> grows by one and \<^verbatim>\<open>doWork\<close> for the task is handed to that
  worker.
\<close>

theorem coordinateThisTask_cases:
  assumes "p' = coordinateThisTask e t p"
  shows "(idle p \<noteq> [] \<longrightarrow>
            (\<exists>w \<in> set (idle p). idle p' = remove1 w (idle p)
               \<and> workerQ p' = workerQ p @ [(w, DoWork t)])
            \<and> busyCount p' = busyCount p + 1 \<and> pending p' = pending p
            \<and> factoryCalls p' = factoryCalls p \<and> created p' = created p)
       \<and> (idle p = [] \<and> \<not> admits e (factoryCalls p) \<longrightarrow>
            pending p' = pending p @ [t] \<and> busyCount p' = busyCount p
            \<and> workerQ p' = workerQ p \<and> idle p' = []
            \<and> factoryCalls p' = factoryCalls p + 1 \<and> created p' = created p)
       \<and> (idle p = [] \<and> admits e (factoryCalls p) \<longrightarrow>
            workerQ p' = workerQ p @ [(created p, DoWork t)]
            \<and> busyCount p' = busyCount p + 1 \<and> pending p' = pending p \<and> idle p' = []
            \<and> factoryCalls p' = factoryCalls p + 1 \<and> created p' = created p + 1)"
  using assms idle_pop_mem [of p e]
  by (auto simp: coordinateThisTask_def worker_do_def createWorker_def idle_pop_def Let_def split: prod.splits)

theorem coordinateThisTask_cases_witness:
  "(idle (run factory_always one_idle Team_init) \<noteq> []
      \<and> busyCount (coordinateThisTask factory_always (Task 2 Returns)
            (run factory_always one_idle Team_init))
          = busyCount (run factory_always one_idle Team_init) + 1)
   \<and> (idle (run factory_once one_busy Team_init) = []
      \<and> \<not> admits factory_once (factoryCalls (run factory_once one_busy Team_init))
      \<and> pending (coordinateThisTask factory_once (Task 2 Returns)
            (run factory_once one_busy Team_init))
          = pending (run factory_once one_busy Team_init) @ [Task 2 Returns])
   \<and> (idle Team_init = [] \<and> admits factory_always (factoryCalls Team_init)
      \<and> workerQ (coordinateThisTask factory_always (Task 2 Returns) Team_init)
          = workerQ Team_init @ [(created Team_init, DoWork (Task 2 Returns))])"
proof -
  have h1: "idle (run factory_always one_idle Team_init) \<noteq> []"
    unfolding one_idle_state by simp
  have h2: "idle (run factory_once one_busy Team_init) = []
            \<and> \<not> admits factory_once (factoryCalls (run factory_once one_busy Team_init))"
    unfolding one_busy_state by (simp add: factory_once_def)
  have h3: "idle Team_init = [] \<and> admits factory_always (factoryCalls Team_init)"
    by (simp add: Team_init_def factory_always_def)
  have c1: "busyCount (coordinateThisTask factory_always (Task 2 Returns)
            (run factory_always one_idle Team_init))
          = busyCount (run factory_always one_idle Team_init) + 1"
    using h1 coordinateThisTask_cases [OF refl, where p = "run factory_always one_idle Team_init"
      and e = factory_always and t = "Task 2 Returns"] by simp
  have c2: "pending (coordinateThisTask factory_once (Task 2 Returns)
            (run factory_once one_busy Team_init))
          = pending (run factory_once one_busy Team_init) @ [Task 2 Returns]"
    using h2 coordinateThisTask_cases [OF refl, where p = "run factory_once one_busy Team_init"
      and e = factory_once and t = "Task 2 Returns"] by simp
  have c3: "workerQ (coordinateThisTask factory_always (Task 2 Returns) Team_init)
          = workerQ Team_init @ [(created Team_init, DoWork (Task 2 Returns))]"
    using h3 coordinateThisTask_cases [OF refl, where p = Team_init and e = factory_always
      and t = "Task 2 Returns"] by simp
  from h1 h2 h3 c1 c2 c3 show ?thesis by simp
qed



text \<open>
  \<^bold>\<open>C5\<close> (shrink debt).  As stated, for every reachable state with \<^verbatim>\<open>_toShrink > 0\<close>, the
  claim fails: in \<open>shrink_debt_counterexample\<close> the debt is one and the backlog holds a
  task, and the returning worker is given that task; it is not retired and the debt stays.
  The order of the branches of \<^verbatim>\<open>_recycleWorker\<close> makes the backlog win, and after quit the
  debt is never paid.  What holds: in every state with a shrink debt, an empty backlog and
  quit not requested, the worker that returns is retired, is not idle afterwards, and
  \<^verbatim>\<open>_toShrink\<close> is lowered by one.
\<close>

theorem shrink_debt_on_clean_return:
  assumes "toShrink p > 0" and "pending p = []" and "\<not> quitIsSet p" and "distinct (idle p)"
    and "p' = idleAndPending e w p"
  shows "toShrink p' = toShrink p - 1 \<and> retired p' = retired p @ [w]
       \<and> w \<notin> set (idle p') \<and> set (idle p') = set (idle p) - {w}
       \<and> busyCount p' = busyCount p - 1"
  using assms remove1_idle_add [of "idle p" w] set_remove1_idle_add [of "idle p" w]
  by (simp add: idleAndPending_def recycleWorker_def Let_def worker_quit_def)

theorem shrink_debt_on_clean_return_witness:
  "0 < toShrink (run factory_always debt_only Team_init)
   \<and> pending (run factory_always debt_only Team_init) = []
   \<and> \<not> quitIsSet (run factory_always debt_only Team_init)
   \<and> distinct (idle (run factory_always debt_only Team_init))
   \<and> toShrink (idleAndPending factory_always 0 (run factory_always debt_only Team_init))
       = toShrink (run factory_always debt_only Team_init) - 1
   \<and> retired (idleAndPending factory_always 0 (run factory_always debt_only Team_init))
       = retired (run factory_always debt_only Team_init) @ [0]"
proof -
  have h1: "0 < toShrink (run factory_always debt_only Team_init)"
    and h2: "pending (run factory_always debt_only Team_init) = []"
    and h3: "\<not> quitIsSet (run factory_always debt_only Team_init)"
    and h4: "distinct (idle (run factory_always debt_only Team_init))"
    unfolding debt_only_state by simp_all
  from h1 h2 h3 h4 shrink_debt_on_clean_return [OF h1 h2 h3 h4 refl, where e = factory_always and w = 0]
  show ?thesis by simp
qed

theorem shrink_debt_counterexample:
  "0 < toShrink (run factory_once backlog_and_debt Team_init)
   \<and> coordQ (run factory_once backlog_and_debt Team_init) = [IdleAndPending 0]
   \<and> toShrink (coordinator_runs factory_once (run factory_once backlog_and_debt Team_init)) = 1
   \<and> retired (coordinator_runs factory_once (run factory_once backlog_and_debt Team_init)) = []
   \<and> workerQ (coordinator_runs factory_once (run factory_once backlog_and_debt Team_init))
       = [(0, DoWork (Task 2 Returns))]"
  unfolding backlog_and_debt_state by code_simp

text \<open>
  \<^bold>\<open>C6\<close> (the backlog is first in, first out).  As stated, with the tasks executed in the
  order \<open>T1\<close>, \<open>T2\<close>, \<open>T3\<close> in every run, the claim fails: in
  \<open>backlog_fifo_counterexample\<close> the factory declines three times, two workers then become
  available one at a time and are handed the first and the second task in that order, and
  the second worker calls its task before the first; nothing orders the calls of two
  workers.  What holds after every sequence of public calls, coordinator items and worker
  items from a fresh pool: the tasks that have left the backlog are the front of those that
  entered it, in the order of entry, followed by those still pending; they have been handed
  to workers in that order; and every worker has called the tasks handed to it in the order
  in which they were handed, the rest waiting in that order.
\<close>

theorem backlog_fifo:
  assumes "p = run e evs Team_init"
  shows "backlogged p = drained p @ pending p
       \<and> subseq (drained p) (map snd (dispatched p))
       \<and> handedTo w p = ranOn w p @ queuedFor w p"
proof -
  have "fifo p" unfolding assms by (rule fifo_run [OF fifo_init])
  moreover have "served w p" unfolding assms by (rule served_run [OF served_init])
  ultimately show ?thesis by (simp add: fifo_def served_def)
qed

theorem backlog_fifo_witness:
  "backlogged (run factory_after_three two_workers_race Team_init)
     = drained (run factory_after_three two_workers_race Team_init)
       @ pending (run factory_after_three two_workers_race Team_init)
   \<and> drained (run factory_after_three two_workers_race Team_init)
       = [Task 1 Returns, Task 2 Returns]
   \<and> subseq (drained (run factory_after_three two_workers_race Team_init))
        (map snd (dispatched (run factory_after_three two_workers_race Team_init)))
   \<and> handedTo 0 (run factory_after_three two_workers_race Team_init)
       = ranOn 0 (run factory_after_three two_workers_race Team_init)
         @ queuedFor 0 (run factory_after_three two_workers_race Team_init)"
proof -
  have d: "drained (run factory_after_three two_workers_race Team_init)
       = [Task 1 Returns, Task 2 Returns]"
    unfolding two_workers_race_state by (simp add: drained_def)
  from d backlog_fifo [OF refl, where e = factory_after_three and evs = two_workers_race
      and w = 0]
  show ?thesis by simp
qed

theorem backlog_fifo_counterexample:
  "backlogged (run factory_after_three two_workers_race Team_init)
     = [Task 1 Returns, Task 2 Returns, Task 3 Returns]
   \<and> dispatched (run factory_after_three two_workers_race Team_init)
     = [(0, Task 1 Returns), (1, Task 2 Returns)]
   \<and> executed (run factory_after_three two_workers_race Team_init)
     = [(1, Task 2 Returns), (0, Task 1 Returns)]"
  unfolding two_workers_race_state by simp

text \<open>
  \<^bold>\<open>C7\<close> (every live worker is idle or busy).  After every sequence of public calls,
  coordinator items and worker items from a fresh pool, hence at every quiescent point, the
  size of the idle set plus \<^verbatim>\<open>_busyCount\<close> is the number of workers the factory has produced
  minus the number retired; \<^verbatim>\<open>_busyCount\<close> counts the busy workers, no worker is both busy
  and idle or twice either, and the busy and idle workers together are the produced workers
  that have not been retired.
\<close>

theorem live_workers_idle_or_busy:
  assumes "p = run e evs Team_init"
  shows "int (length (idle p)) + busyCount p = int (created p) - int (length (retired p))
       \<and> busyCount p = int (length (busyWorkers p))
       \<and> distinct (busyWorkers p @ idle p)
       \<and> set (busyWorkers p) \<union> set (idle p) = {..<created p} - set (retired p)"
proof -
  have acc: "accounted [] p" unfolding assms by (rule accounted_run [OF accounted_init])
  have d: "distinct (busyWorkers p @ idle p @ retired p)"
    and s: "set (busyWorkers p @ idle p @ retired p) = {..<created p}"
    by (rule accounted_partition [OF acc])+
  have "distinct (busyWorkers p @ idle p)" using d by auto
  moreover have "set (busyWorkers p) \<union> set (idle p) = {..<created p} - set (retired p)"
    using d s by auto
  moreover have "busyCount p = int (length (busyWorkers p))"
    using acc by (simp add: accounted_def del: mset_upt)
  ultimately show ?thesis using accounted_sizes [OF acc] by simp
qed

theorem live_workers_idle_or_busy_witness:
  "int (length (idle (run factory_once backlog_and_debt Team_init)))
     + busyCount (run factory_once backlog_and_debt Team_init)
   = int (created (run factory_once backlog_and_debt Team_init))
     - int (length (retired (run factory_once backlog_and_debt Team_init)))"
  using live_workers_idle_or_busy [OF refl, where e = factory_once and evs = backlog_and_debt]
  by simp

text \<open>
  \<^bold>\<open>C8\<close> (a task that raises).  The submitter's \<^verbatim>\<open>do\<close> answers by the quit flag alone,
  whatever the task does.  \<^verbatim>\<open>doWork\<close> for a task that raises \<open>x\<close> lets no exception out, calls
  \<^verbatim>\<open>logException\<close> once, with \<open>x\<close>, and hands \<^verbatim>\<open>idleAndPending\<close> to the coordinator; from then
  on, through every sequence of public calls, coordinator items and worker items, the pool
  is the pool that the same task returning normally leaves, the record of the tasks called
  and of the exceptions logged apart.  When \<^verbatim>\<open>idleAndPending\<close> is the next item of the
  coordinator, with nothing pending and quit not requested, it lowers \<^verbatim>\<open>_busyCount\<close> by one
  and puts the worker into the idle set, or, with a shrink debt, retires it and lowers the
  debt.
\<close>

theorem doWork_raising_task:
  assumes "a = snd (doWork (Task i (Raises x)) w q)"
    and "b = snd (doWork (Task i Returns) w q)"
  shows "fst (team_do (Task i (Raises x)) p) = Quit_check p
       \<and> fst (doWork (Task i (Raises x)) w q) = None
       \<and> logged a = logged q @ [x] \<and> logged b = logged q
       \<and> coordQ a = coordQ q @ [IdleAndPending w]
       \<and> untraced (run e evs a) = untraced (run e evs b)
       \<and> (coordQ q = [] \<and> pending q = [] \<and> \<not> quitIsSet q \<and> w \<notin> set (idle q)
            \<and> toShrink q \<le> 0 \<longrightarrow>
              idle (coordinator_runs e a) = idle q @ [w]
              \<and> busyCount (coordinator_runs e a) = busyCount q - 1
              \<and> retired (coordinator_runs e a) = retired q
              \<and> logged (coordinator_runs e a) = logged q @ [x])
       \<and> (coordQ q = [] \<and> pending q = [] \<and> \<not> quitIsSet q \<and> w \<notin> set (idle q)
            \<and> 0 < toShrink q \<longrightarrow>
              idle (coordinator_runs e a) = idle q
              \<and> busyCount (coordinator_runs e a) = busyCount q - 1
              \<and> retired (coordinator_runs e a) = retired q @ [w]
              \<and> toShrink (coordinator_runs e a) = toShrink q - 1
              \<and> logged (coordinator_runs e a) = logged q @ [x])"
proof -
  have a: "a = q\<lparr>executed := executed q @ [(w, Task i (Raises x))], logged := logged q @ [x],
             coordQ := coordQ q @ [IdleAndPending w]\<rparr>"
    and b: "b = q\<lparr>executed := executed q @ [(w, Task i Returns)],
             coordQ := coordQ q @ [IdleAndPending w]\<rparr>"
    unfolding assms by (simp_all add: doWork_state)
  have 1: "fst (team_do (Task i (Raises x)) p) = Quit_check p"
    by (simp add: team_do_def split: sum.splits)
  have 2: "fst (doWork (Task i (Raises x)) w q) = None" by (simp add: doWork_def)
  have "untraced a = untraced b" unfolding a b by (simp add: untraced_def)
  then have 3: "untraced (run e evs a) = untraced (run e evs b)" by (rule run_untraced)
  have next_item: "coordinator_runs e a =
      idleAndPending e w (q\<lparr>executed := executed q @ [(w, Task i (Raises x))],
        logged := logged q @ [x]\<rparr>)" if "coordQ q = []"
    unfolding a using that by (cases q) (simp add: coordinator_runs_def)
  have 4: "idle (coordinator_runs e a) = idle q @ [w]
              \<and> busyCount (coordinator_runs e a) = busyCount q - 1
              \<and> retired (coordinator_runs e a) = retired q
              \<and> logged (coordinator_runs e a) = logged q @ [x]"
    if "coordQ q = []" "pending q = []" "\<not> quitIsSet q" "w \<notin> set (idle q)" "toShrink q \<le> 0"
    unfolding next_item [OF that(1)] using that
    by (simp add: idleAndPending_parks)
  have 5: "idle (coordinator_runs e a) = idle q
              \<and> busyCount (coordinator_runs e a) = busyCount q - 1
              \<and> retired (coordinator_runs e a) = retired q @ [w]
              \<and> toShrink (coordinator_runs e a) = toShrink q - 1
              \<and> logged (coordinator_runs e a) = logged q @ [x]"
    if "coordQ q = []" "pending q = []" "\<not> quitIsSet q" "w \<notin> set (idle q)" "0 < toShrink q"
    unfolding next_item [OF that(1)] using that
    by (simp add: idleAndPending_pays_debt)
  from 1 2 3 4 5 show ?thesis unfolding a b by simp
qed

theorem doWork_raising_task_witness:
  "idle (coordinator_runs factory_always (snd (doWork (Task 1 (Raises 7)) 0
      ((run factory_always raising_dispatched Team_init)\<lparr>workerQ := []\<rparr>)))) = [0]
   \<and> busyCount (coordinator_runs factory_always (snd (doWork (Task 1 (Raises 7)) 0
      ((run factory_always raising_dispatched Team_init)\<lparr>workerQ := []\<rparr>)))) = 0
   \<and> logged (coordinator_runs factory_always (snd (doWork (Task 1 (Raises 7)) 0
      ((run factory_always raising_dispatched Team_init)\<lparr>workerQ := []\<rparr>)))) = [7]
   \<and> retired (coordinator_runs factory_always (snd (doWork (Task 1 (Raises 7)) 0
      ((run factory_always raising_with_debt Team_init)\<lparr>workerQ := []\<rparr>)))) = [0]
   \<and> idle (coordinator_runs factory_always (snd (doWork (Task 1 (Raises 7)) 0
      ((run factory_always raising_with_debt Team_init)\<lparr>workerQ := []\<rparr>)))) = []
   \<and> toShrink (coordinator_runs factory_always (snd (doWork (Task 1 (Raises 7)) 0
      ((run factory_always raising_with_debt Team_init)\<lparr>workerQ := []\<rparr>)))) = 0"
proof -
  let ?q = "(run factory_always raising_dispatched Team_init)\<lparr>workerQ := []\<rparr>"
  let ?r = "(run factory_always raising_with_debt Team_init)\<lparr>workerQ := []\<rparr>"
  have hq: "coordQ ?q = [] \<and> pending ?q = [] \<and> \<not> quitIsSet ?q \<and> 0 \<notin> set (idle ?q)
            \<and> toShrink ?q \<le> 0"
    and vq: "idle ?q = []" "busyCount ?q = 1" "logged ?q = []"
    unfolding raising_dispatched_state by simp_all
  have hr: "coordQ ?r = [] \<and> pending ?r = [] \<and> \<not> quitIsSet ?r \<and> 0 \<notin> set (idle ?r)
            \<and> 0 < toShrink ?r"
    and vr: "idle ?r = []" "retired ?r = []" "toShrink ?r = 1"
    unfolding raising_with_debt_state by simp_all
  have cq: "idle (coordinator_runs factory_always (snd (doWork (Task 1 (Raises 7)) 0 ?q)))
              = idle ?q @ [0]
            \<and> busyCount (coordinator_runs factory_always (snd (doWork (Task 1 (Raises 7)) 0 ?q)))
              = busyCount ?q - 1
            \<and> logged (coordinator_runs factory_always (snd (doWork (Task 1 (Raises 7)) 0 ?q)))
              = logged ?q @ [7]"
    using hq doWork_raising_task [OF refl refl, where q = ?q and w = 0 and i = 1 and x = 7
      and e = factory_always] by blast
  have cr: "retired (coordinator_runs factory_always (snd (doWork (Task 1 (Raises 7)) 0 ?r)))
              = retired ?r @ [0]
            \<and> idle (coordinator_runs factory_always (snd (doWork (Task 1 (Raises 7)) 0 ?r)))
              = idle ?r
            \<and> toShrink (coordinator_runs factory_always (snd (doWork (Task 1 (Raises 7)) 0 ?r)))
              = toShrink ?r - 1"
    using hr doWork_raising_task [OF refl refl, where q = ?r and w = 0 and i = 1 and x = 7
      and e = factory_always] by blast
  from cq cr show ?thesis by (simp add: vq vr)
qed

text \<open>
  \<^bold>\<open>C9\<close> (quit called again).  As stated, a second \<^verbatim>\<open>quit\<close> that succeeds, the claim fails:
  the flag is set once, and in \<open>quit_again_counterexample\<close> the first \<^verbatim>\<open>quit\<close> of a fresh
  pool returns normally and the second fails with the shutting-down error.  What holds, with
  the flag modelled from the spec: in every state in which quit has been requested,
  \<^verbatim>\<open>quit\<close> fails with the shutting-down error before anything is handed to the coordinator,
  and the pool is as it was.
\<close>

theorem quit_again:
  assumes "quitIsSet p"
  shows "quit p = (Inl PoolShuttingDown, p)"
  using assms by (simp add: quit_def Quit_set_def Quit_check_def)

theorem quit_again_witness:
  "quitIsSet (run factory_always quit_while_busy Team_init)
   \<and> quit (run factory_always quit_while_busy Team_init)
       = (Inl PoolShuttingDown, run factory_always quit_while_busy Team_init)"
proof -
  have h: "quitIsSet (run factory_always quit_while_busy Team_init)"
    unfolding quit_while_busy_state by simp
  from h quit_again [OF h] show ?thesis by simp
qed

theorem quit_again_counterexample:
  "fst (quit Team_init) = Inr ()
   \<and> fst (quit (snd (quit Team_init))) = Inl PoolShuttingDown"
  by (simp add: quit_def Quit_set_def Quit_check_def coordinator_do_def Team_init_def)

text \<open>
  \<^bold>\<open>C10\<close> (the backlog is drained onto an idle worker).  When \<^verbatim>\<open>_recycleWorker\<close> finds the
  backlog non-empty, the idle set holds at least the worker just added, so the dispatch
  takes its worker from the idle set: the factory is not called, no worker is created, the
  head of the backlog leaves the backlog and is handed to a worker of the idle set, and
  \<^verbatim>\<open>_busyCount\<close> grows by one.
\<close>

theorem recycle_backlog_takes_idle_worker:
  assumes "pending p \<noteq> []" and "p' = recycleWorker e w p"
  shows "idle_add w (idle p) \<noteq> []
       \<and> factoryCalls p' = factoryCalls p \<and> created p' = created p
       \<and> pending p' = tl (pending p) \<and> busyCount p' = busyCount p + 1
       \<and> (\<exists>v \<in> set (idle_add w (idle p)).
             workerQ p' = workerQ p @ [(v, DoWork (hd (pending p)))]
             \<and> idle p' = remove1 v (idle_add w (idle p)))"
proof -
  let ?p1 = "p\<lparr>idle := idle_add w (idle p), pending := tl (pending p)\<rparr>"
  have ne: "idle ?p1 \<noteq> []" using idle_add_mem [of w "idle p"] by auto
  have "p' = coordinateThisTask e (hd (pending p)) ?p1"
    using assms by (simp add: recycleWorker_def Let_def)
  with coordinateThisTask_idle [OF ne, of e "hd (pending p)"] ne
  show ?thesis by auto
qed

theorem recycle_backlog_takes_idle_worker_witness:
  "pending (run factory_once backlog_and_debt Team_init) \<noteq> []
   \<and> factoryCalls (recycleWorker factory_once 0 (run factory_once backlog_and_debt Team_init))
       = factoryCalls (run factory_once backlog_and_debt Team_init)
   \<and> pending (recycleWorker factory_once 0 (run factory_once backlog_and_debt Team_init))
       = tl (pending (run factory_once backlog_and_debt Team_init))"
proof -
  have h: "pending (run factory_once backlog_and_debt Team_init) \<noteq> []"
    unfolding backlog_and_debt_state by simp
  from h recycle_backlog_takes_idle_worker [OF h refl, where e = factory_once and w = 0]
  show ?thesis by blast
qed

end
